theory Spec2Isabelle
  imports Complex_Main "HOL-Library.Sublist"
begin

section \<open>Python values used by the visual-diff code\<close>

text \<open>
  The embedding covers \<open>src/adbdevicemanager.py\<close>: \<open>_resolve_figma_token\<close>,
  \<open>_coarse_mae\<close> and \<open>compare_screen_with_figma\<close>.

  Conventions.
  \<^item> A Python \<open>float\<close> is modelled as an exact \<open>real\<close>. The sums the code accumulates
    are sums of integers, exact in a double below \<open>2^53\<close>; NaN and signed zeros do not
    occur. \<open>float("inf")\<close> is the constructor \<open>PosInf\<close> of \<open>score\<close>.
  \<^item> A Python \<open>int\<close> that is a size, a coordinate or a counter is a \<open>nat\<close>; a colour
    channel is an \<open>int\<close>, so that \<open>abs(r1 - r2)\<close> is the subtraction of the source.
  \<^item> A \<open>raise\<close> is the left injection of a sum: \<open>py_error + 'a\<close>.
\<close>

datatype py_error =
    RuntimeError string
  | IndexError
  | ZeroDivisionError
  | ValueError
  | CollaboratorError string

text \<open>A \<open>for\<close> loop whose body may raise: the first error ends the loop.\<close>

fun for_loop :: "('a \<Rightarrow> 's \<Rightarrow> py_error + 's) \<Rightarrow> 'a list \<Rightarrow> 's \<Rightarrow> py_error + 's" where
  "for_loop body [] s = Inr s"
| "for_loop body (x # xs) s =
     (case body x s of Inl e \<Rightarrow> Inl e | Inr s' \<Rightarrow> for_loop body xs s')"

text \<open>\<open>range(start, stop, step)\<close> for a positive step (\<open>step = 0\<close> is rejected by the caller
  below, as Python's \<open>range\<close> raises \<open>ValueError\<close> there).\<close>

function py_range :: "nat \<Rightarrow> nat \<Rightarrow> nat \<Rightarrow> nat list" where
  "py_range i stop step =
     (if step = 0 \<or> stop \<le> i then [] else i # py_range (i + step) stop step)"
  by pat_completeness auto
termination
  by (relation "measure (\<lambda>(i, stop, step). stop - i)") auto

declare py_range.simps [simp del]

text \<open>\<open>round(x)\<close>: to the nearest integer, a tie to the even one.\<close>

definition py_round :: "real \<Rightarrow> int" where
  "py_round x =
     (let f = \<lfloor>x\<rfloor>; r = x - of_int f
      in if r < 1 / 2 then f else if 1 / 2 < r then f + 1 else if even f then f else f + 1)"

text \<open>\<open>round(x, n)\<close> for \<open>n \<ge> 0\<close> decimal places, on the exact value. A double that
  prints as a decimal tie (such as \<open>0.0125\<close>) is not exactly that tie, so Python may round it
  the other way; the results below do not depend on how a tie falls.\<close>

definition py_round_to :: "nat \<Rightarrow> real \<Rightarrow> real" where
  "py_round_to n x = of_int (py_round (x * 10 ^ n)) / 10 ^ n"

text \<open>\<open>str(n)\<close> of a non-negative integer, as an f-string renders it.\<close>

definition digit_char :: "nat \<Rightarrow> char" where
  "digit_char d = ''0123456789'' ! d"

function str_nat :: "nat \<Rightarrow> string" where
  "str_nat n = (if n < 10 then [digit_char n] else str_nat (n div 10) @ [digit_char (n mod 10)])"
  by pat_completeness auto
termination
  by (relation "measure id") auto

declare str_nat.simps [simp del]

text \<open>\<open>str.strip()\<close>: the whitespace of ASCII text (tab to carriage return, the four
  separators \<open>0x1c\<close> to \<open>0x1f\<close>, and the space). Strings are modelled as ASCII.\<close>

definition py_isspace :: "char \<Rightarrow> bool" where
  "py_isspace c =
     (let n = (of_char c :: nat) in n = 32 \<or> (9 \<le> n \<and> n \<le> 13) \<or> (28 \<le> n \<and> n \<le> 31))"

definition py_strip :: "string \<Rightarrow> string" where
  "py_strip s = rev (dropWhile py_isspace (rev (dropWhile py_isspace s)))"

text \<open>\<open>a or b\<close> on optional strings: \<open>None\<close> and \<open>""\<close> are falsy.\<close>

definition py_or :: "string option \<Rightarrow> string option \<Rightarrow> string option" where
  "py_or a b = (case a of None \<Rightarrow> b | Some s \<Rightarrow> if s = [] then b else Some s)"

text \<open>\<open>sorted(xs, key=key, reverse=True)\<close>: CPython reverses the list, sorts it stably in
  ascending order and reverses the result, so that equal keys keep their original order.\<close>

definition py_sorted_reverse :: "('a \<Rightarrow> real) \<Rightarrow> 'a list \<Rightarrow> 'a list" where
  "py_sorted_reverse key xs = rev (sort_key key (rev xs))"

text \<open>List indexing \<open>xs[i]\<close> with a non-negative index.\<close>

definition py_index :: "'a list \<Rightarrow> nat \<Rightarrow> py_error + 'a" where
  "py_index xs i = (if i < length xs then Inr (xs ! i) else Inl IndexError)"

section \<open>Bitmaps\<close>

text \<open>A decoded RGB image: its \<open>size\<close> and the pixel access object of \<open>Image.load()\<close>.
  Reading outside the image raises \<open>IndexError\<close>.\<close>

type_synonym rgb = "int \<times> int \<times> int"

record pil_image =
  width :: nat
  height :: nat
  pixels :: "nat \<Rightarrow> nat \<Rightarrow> rgb"

definition load_px :: "pil_image \<Rightarrow> nat \<Rightarrow> nat \<Rightarrow> py_error + rgb" where
  "load_px img x y =
     (if x < width img \<and> y < height img then Inr (pixels img x y) else Inl IndexError)"

definition valid_rgb :: "rgb \<Rightarrow> bool" where
  "valid_rgb p = (case p of (r, g, b) \<Rightarrow>
     0 \<le> r \<and> r \<le> 255 \<and> 0 \<le> g \<and> g \<le> 255 \<and> 0 \<le> b \<and> b \<le> 255)"

text \<open>Writing a pixel through the access object; outside the image it raises too.\<close>

definition store_px :: "pil_image \<Rightarrow> nat \<Rightarrow> nat \<Rightarrow> rgb \<Rightarrow> py_error + pil_image" where
  "store_px img x y v =
     (if x < width img \<and> y < height img
      then Inr (img\<lparr>pixels := (pixels img)(x := (pixels img x)(y := v))\<rparr>)
      else Inl IndexError)"

text \<open>\<open>Image.crop((left, upper, right, lower))\<close>: a new image of the size of the box; a part
  of the box outside the source is black.\<close>

definition crop :: "pil_image \<Rightarrow> nat \<Rightarrow> nat \<Rightarrow> nat \<Rightarrow> nat \<Rightarrow> pil_image" where
  "crop img left upper right lower =
     \<lparr>width = right - left, height = lower - upper,
      pixels = (\<lambda>x y. if x + left < width img \<and> y + upper < height img
                       then pixels img (x + left) (y + upper) else (0, 0, 0))\<rparr>"

text \<open>Every sample of the image is a byte.\<close>

definition wf_image :: "pil_image \<Rightarrow> bool" where
  "wf_image img =
     (\<forall>y \<in> set [0..<height img]. \<forall>x \<in> set [0..<width img]. valid_rgb (pixels img x y))"

text \<open>\<open>abs(r1 - r2) + abs(g1 - g2) + abs(b1 - b2)\<close>\<close>

definition abs_delta :: "rgb \<Rightarrow> rgb \<Rightarrow> int" where
  "abs_delta p q = (case p of (r1, g1, b1) \<Rightarrow> case q of (r2, g2, b2) \<Rightarrow>
     \<bar>r1 - r2\<bar> + \<bar>g1 - g2\<bar> + \<bar>b1 - b2\<bar>)"

section \<open>The coarse score: \<open>_coarse_mae\<close>\<close>

text \<open>The accumulator is \<open>(total, count)\<close>. One iteration of the inner loop
  (lines 709-712):\<close>

definition coarse_px ::
  "pil_image \<Rightarrow> pil_image \<Rightarrow> nat \<Rightarrow> nat \<Rightarrow> nat \<Rightarrow> real \<times> nat \<Rightarrow> py_error + real \<times> nat" where
  "coarse_px fig_img emu_scaled source_y y x acc =
     (case load_px fig_img x y of
        Inl e \<Rightarrow> Inl e
      | Inr p1 \<Rightarrow>
         (case load_px emu_scaled x source_y of
            Inl e \<Rightarrow> Inl e
          | Inr p2 \<Rightarrow> Inr (fst acc + real_of_int (abs_delta p1 p2), snd acc + 3)))"

text \<open>One iteration of the outer loop (lines 707-712).\<close>

definition coarse_row ::
  "pil_image \<Rightarrow> pil_image \<Rightarrow> nat \<Rightarrow> nat \<Rightarrow> nat \<Rightarrow> real \<times> nat \<Rightarrow> py_error + real \<times> nat" where
  "coarse_row fig_img emu_scaled y_offset step y acc =
     for_loop (coarse_px fig_img emu_scaled (y + y_offset) y)
       (py_range 0 (width fig_img) step) acc"

definition coarse_mae :: "pil_image \<Rightarrow> pil_image \<Rightarrow> nat \<Rightarrow> nat \<Rightarrow> py_error + real" where
  "coarse_mae fig_img emu_scaled y_offset step =
     (if step = 0 then Inl ValueError
      else
        (case for_loop (coarse_row fig_img emu_scaled y_offset step)
                (py_range 0 (height fig_img) step) (0, 0) of
           Inl e \<Rightarrow> Inl e
         | Inr (tot, count) \<Rightarrow>
            Inr (if count = 0 then 255 else tot / real count)))"


section \<open>The vertical offset search (lines 782-789)\<close>

text \<open>\<open>best_mae\<close> starts as \<open>float("inf")\<close>.\<close>

datatype score = PosInf | Finite real

text \<open>\<open>score < best_mae\<close>\<close>

definition score_less :: "real \<Rightarrow> score \<Rightarrow> bool" where
  "score_less s b = (case b of PosInf \<Rightarrow> True | Finite t \<Rightarrow> s < t)"

text \<open>The loop state is \<open>(best_y, best_mae)\<close>.\<close>

definition search_step ::
  "pil_image \<Rightarrow> pil_image \<Rightarrow> nat \<Rightarrow> nat \<times> score \<Rightarrow> py_error + nat \<times> score" where
  "search_step fig_img emu_scaled y_offset best =
     (case coarse_mae fig_img emu_scaled y_offset 2 of
        Inl e \<Rightarrow> Inl e
      | Inr sc \<Rightarrow> Inr (if score_less sc (snd best) then (y_offset, Finite sc) else best))"

definition offset_search :: "pil_image \<Rightarrow> pil_image \<Rightarrow> nat \<Rightarrow> py_error + nat \<times> score" where
  "offset_search fig_img emu_scaled max_offset =
     for_loop (search_step fig_img emu_scaled) [0..<max_offset + 1] (0, PosInf)"

section \<open>The diff pass (lines 794-853)\<close>

record zone =
  zone_name :: string
  y0 :: real
  y1 :: real
  zone_sum :: real
  zone_count :: nat

definition initial_zones :: "zone list" where
  "initial_zones =
     [\<lparr>zone_name = ''header'', y0 = 0, y1 = 24 / 100, zone_sum = 0, zone_count = 0\<rparr>,
      \<lparr>zone_name = ''cards'', y0 = 24 / 100, y1 = 47 / 100, zone_sum = 0, zone_count = 0\<rparr>,
      \<lparr>zone_name = ''gap_analysis'', y0 = 47 / 100, y1 = 72 / 100, zone_sum = 0, zone_count = 0\<rparr>,
      \<lparr>zone_name = ''strategy_band'', y0 = 72 / 100, y1 = 87 / 100, zone_sum = 0, zone_count = 0\<rparr>,
      \<lparr>zone_name = ''bottom_nav'', y0 = 87 / 100, y1 = 1, zone_sum = 0, zone_count = 0\<rparr>]"

text \<open>The inner \<open>for zone in zones\<close> with its \<open>break\<close> (lines 846-850): the first zone
  whose band holds \<open>y_norm\<close> takes the pixel.\<close>

fun zone_add :: "real \<Rightarrow> real \<Rightarrow> zone list \<Rightarrow> zone list" where
  "zone_add y_norm d_avg [] = []"
| "zone_add y_norm d_avg (z # zs) =
     (if y0 z \<le> y_norm \<and> y_norm < y1 z
      then z\<lparr>zone_sum := zone_sum z + d_avg, zone_count := zone_count z + 1\<rparr> # zs
      else z # zone_add y_norm d_avg zs)"

record diff_acc =
  sum_abs :: real
  sum_sq :: real
  diff_gt_10 :: nat
  diff_gt_25 :: nat
  diff_gt_50 :: nat
  cell_sums :: "real list"
  cell_pixels :: "nat list"
  zones :: "zone list"
  heatmap :: pil_image

definition initial_acc :: "nat \<Rightarrow> nat \<Rightarrow> nat \<Rightarrow> nat \<Rightarrow> diff_acc" where
  "initial_acc target_w target_h grid_cols grid_rows =
     \<lparr>sum_abs = 0, sum_sq = 0, diff_gt_10 = 0, diff_gt_25 = 0, diff_gt_50 = 0,
      cell_sums = replicate (grid_cols * grid_rows) 0,
      cell_pixels = replicate (grid_cols * grid_rows) 0,
      zones = initial_zones,
      heatmap = \<lparr>width = target_w, height = target_h, pixels = (\<lambda>x y. (0, 0, 0))\<rparr>\<rparr>"

text \<open>The grid bucket of a pixel (lines 840-842). \<open>grid_cols\<close> and \<open>grid_rows\<close> are positive
  here: the caller has rejected the other values.\<close>

definition cell_index :: "nat \<Rightarrow> nat \<Rightarrow> nat \<Rightarrow> nat \<Rightarrow> nat \<Rightarrow> nat \<Rightarrow> nat" where
  "cell_index target_w target_h grid_cols grid_rows x y =
     (let cx = min (grid_cols - 1) ((x * grid_cols) div target_w);
          cy = min (grid_rows - 1) ((y * grid_rows) div target_h)
      in cy * grid_cols + cx)"

text \<open>The body of the inner loop (lines 822-853).\<close>

definition diff_px ::
  "pil_image \<Rightarrow> pil_image \<Rightarrow> nat \<Rightarrow> nat \<Rightarrow> nat \<Rightarrow> nat \<Rightarrow> nat \<Rightarrow> real \<Rightarrow> nat \<Rightarrow>
     diff_acc \<Rightarrow> py_error + diff_acc" where
  "diff_px fig_img emu_aligned target_w target_h grid_cols grid_rows y y_norm x a =
     (case load_px fig_img x y of
        Inl e \<Rightarrow> Inl e
      | Inr (r1, g1, b1) \<Rightarrow>
     (case load_px emu_aligned x y of
        Inl e \<Rightarrow> Inl e
      | Inr (r2, g2, b2) \<Rightarrow>
         (let dr = \<bar>r1 - r2\<bar>; dg = \<bar>g1 - g2\<bar>; db = \<bar>b1 - b2\<bar>;
              d_avg = real_of_int (dr + dg + db) / 3;
              idx = cell_index target_w target_h grid_cols grid_rows x y;
              heat_val = min 255 (py_round (d_avg * 4))
          in if target_w = 0 \<or> target_h = 0 then Inl ZeroDivisionError
             else if length (cell_sums a) \<le> idx \<or> length (cell_pixels a) \<le> idx
               then Inl IndexError
             else
               (case store_px (heatmap a) x y (heat_val, 0, 0) of
                  Inl e \<Rightarrow> Inl e
                | Inr heat \<Rightarrow>
                   Inr (a\<lparr>sum_abs := sum_abs a + real_of_int (dr + dg + db),
                          sum_sq := sum_sq a + real_of_int (dr * dr + dg * dg + db * db),
                          diff_gt_10 := (if 10 < d_avg then diff_gt_10 a + 1 else diff_gt_10 a),
                          diff_gt_25 := (if 25 < d_avg then diff_gt_25 a + 1 else diff_gt_25 a),
                          diff_gt_50 := (if 50 < d_avg then diff_gt_50 a + 1 else diff_gt_50 a),
                          cell_sums := (cell_sums a)[idx := cell_sums a ! idx + d_avg],
                          cell_pixels := (cell_pixels a)[idx := cell_pixels a ! idx + 1],
                          zones := zone_add y_norm d_avg (zones a),
                          heatmap := heat\<rparr>)))))"

text \<open>The body of the outer loop (lines 820-853).\<close>

definition diff_row ::
  "pil_image \<Rightarrow> pil_image \<Rightarrow> nat \<Rightarrow> nat \<Rightarrow> nat \<Rightarrow> nat \<Rightarrow> nat \<Rightarrow> diff_acc \<Rightarrow>
     py_error + diff_acc" where
  "diff_row fig_img emu_aligned target_w target_h grid_cols grid_rows y a =
     (if target_h = 0 then Inl ZeroDivisionError
      else for_loop
             (diff_px fig_img emu_aligned target_w target_h grid_cols grid_rows y
                (real y / real target_h))
             [0..<target_w] a)"

definition diff_pass ::
  "pil_image \<Rightarrow> pil_image \<Rightarrow> nat \<Rightarrow> nat \<Rightarrow> py_error + diff_acc" where
  "diff_pass fig_img emu_aligned grid_cols grid_rows =
     (let target_w = width fig_img; target_h = height fig_img
      in for_loop (diff_row fig_img emu_aligned target_w target_h grid_cols grid_rows)
           [0..<target_h] (initial_acc target_w target_h grid_cols grid_rows))"

subsection \<open>The pass as a fold, for the proofs\<close>

text \<open>What one iteration of the inner loop does to the accumulator when no access is out
  of range: the pure part of \<open>diff_px\<close>, at the pixel \<open>(x, y)\<close>.\<close>

definition px_update ::
  "pil_image \<Rightarrow> pil_image \<Rightarrow> nat \<Rightarrow> nat \<Rightarrow> nat \<Rightarrow> nat \<Rightarrow> nat \<times> nat \<Rightarrow> diff_acc \<Rightarrow> diff_acc" where
  "px_update fig_img emu_aligned target_w target_h grid_cols grid_rows p a =
     (case p of (x, y) \<Rightarrow>
      case pixels fig_img x y of (r1, g1, b1) \<Rightarrow>
      case pixels emu_aligned x y of (r2, g2, b2) \<Rightarrow>
        (let dr = \<bar>r1 - r2\<bar>; dg = \<bar>g1 - g2\<bar>; db = \<bar>b1 - b2\<bar>;
             d_avg = real_of_int (dr + dg + db) / 3;
             idx = cell_index target_w target_h grid_cols grid_rows x y;
             heat_val = min 255 (py_round (d_avg * 4))
         in a\<lparr>sum_abs := sum_abs a + real_of_int (dr + dg + db),
               sum_sq := sum_sq a + real_of_int (dr * dr + dg * dg + db * db),
               diff_gt_10 := (if 10 < d_avg then diff_gt_10 a + 1 else diff_gt_10 a),
               diff_gt_25 := (if 25 < d_avg then diff_gt_25 a + 1 else diff_gt_25 a),
               diff_gt_50 := (if 50 < d_avg then diff_gt_50 a + 1 else diff_gt_50 a),
               cell_sums := (cell_sums a)[idx := cell_sums a ! idx + d_avg],
               cell_pixels := (cell_pixels a)[idx := cell_pixels a ! idx + 1],
               zones := zone_add (real y / real target_h) d_avg (zones a),
               heatmap := (heatmap a)
                 \<lparr>pixels := (pixels (heatmap a))
                    (x := (pixels (heatmap a) x)(y := (heat_val, 0, 0)))\<rparr>\<rparr>))"

text \<open>The pixels in the order the two loops visit them: row by row.\<close>

definition all_pixels :: "nat \<Rightarrow> nat \<Rightarrow> (nat \<times> nat) list" where
  "all_pixels target_w target_h =
     concat (map (\<lambda>y. map (\<lambda>x. (x, y)) [0..<target_w]) [0..<target_h])"

text \<open>What stays true of the accumulator during the pass: the two cell lists keep their
  length and the heat map its size.\<close>

definition acc_shape :: "nat \<Rightarrow> nat \<Rightarrow> nat \<Rightarrow> nat \<Rightarrow> diff_acc \<Rightarrow> bool" where
  "acc_shape target_w target_h grid_cols grid_rows a =
     (length (cell_sums a) = grid_cols * grid_rows \<and>
      length (cell_pixels a) = grid_cols * grid_rows \<and>
      width (heatmap a) = target_w \<and> height (heatmap a) = target_h)"

text \<open>The mean channel difference \<open>d_avg\<close> of a pixel pair.\<close>

definition d_avg_of :: "rgb \<Rightarrow> rgb \<Rightarrow> real" where
  "d_avg_of p q = real_of_int (abs_delta p q) / 3"

text \<open>The band test of line 847.\<close>

definition in_band :: "zone \<Rightarrow> real \<Rightarrow> bool" where
  "in_band z y_norm = (y0 z \<le> y_norm \<and> y_norm < y1 z)"

text \<open>An accumulator in which nothing but pixel counts has been added.\<close>

definition all_zero :: "diff_acc \<Rightarrow> bool" where
  "all_zero a = (sum_abs a = 0 \<and> sum_sq a = 0 \<and> diff_gt_10 a = 0 \<and> diff_gt_25 a = 0 \<and>
     diff_gt_50 a = 0 \<and> (\<forall>s\<in>set (cell_sums a). s = 0) \<and> (\<forall>z\<in>set (zones a). zone_sum z = 0))"

text \<open>Two pixels whose three channels each differ by \<open>k\<close> in absolute value.\<close>

definition uniform_delta :: "int \<Rightarrow> rgb \<Rightarrow> rgb \<Rightarrow> bool" where
  "uniform_delta k p q = (case p of (r1, g1, b1) \<Rightarrow> case q of (r2, g2, b2) \<Rightarrow>
     \<bar>r1 - r2\<bar> = k \<and> \<bar>g1 - g2\<bar> = k \<and> \<bar>b1 - b2\<bar> = k)"

section \<open>After the pass (lines 857-886)\<close>

text \<open>The locals \<open>mae\<close>, \<open>rmse\<close> and \<open>similarity_pct\<close> (lines 857-859); \<open>x ** 0.5\<close> is the
  square root.\<close>

record pixel_metrics =
  mae :: real
  rmse :: real
  similarity_pct :: real

definition similarity_of :: "real \<Rightarrow> real" where
  "similarity_of avg = max 0 (100 - (avg / 255) * 100)"

definition global_metrics :: "diff_acc \<Rightarrow> nat \<Rightarrow> nat \<Rightarrow> py_error + pixel_metrics" where
  "global_metrics a target_w target_h =
     (let channels = target_w * target_h * 3
      in if channels = 0 then Inl ZeroDivisionError
         else Inr \<lparr>mae = sum_abs a / real channels,
                   rmse = sqrt (sum_sq a / real channels),
                   similarity_pct = similarity_of (sum_abs a / real channels)\<rparr>)"

record grid_cell =
  row :: nat
  col :: nat
  avgDiff :: real
  similarityPct :: real

text \<open>One iteration of lines 863-873.\<close>

definition grid_cell_step ::
  "diff_acc \<Rightarrow> nat \<Rightarrow> nat \<Rightarrow> nat \<Rightarrow> grid_cell list \<Rightarrow> py_error + grid_cell list" where
  "grid_cell_step a grid_cols r c grid_cells =
     (let idx = r * grid_cols + c
      in case py_index (cell_pixels a) idx of
           Inl e \<Rightarrow> Inl e
         | Inr n \<Rightarrow>
            (case (if n \<noteq> 0
                   then (case py_index (cell_sums a) idx of
                           Inl e \<Rightarrow> Inl e | Inr s \<Rightarrow> Inr (s / real n))
                   else Inr 0) of
               Inl e \<Rightarrow> Inl e
             | Inr avg \<Rightarrow>
                Inr (grid_cells @
                     [\<lparr>row = r, col = c, avgDiff = py_round_to 3 avg,
                       similarityPct = py_round_to 3 (similarity_of avg)\<rparr>])))"

definition build_grid_cells :: "diff_acc \<Rightarrow> nat \<Rightarrow> nat \<Rightarrow> py_error + grid_cell list" where
  "build_grid_cells a grid_cols grid_rows =
     for_loop (\<lambda>r. for_loop (grid_cell_step a grid_cols r) [0..<grid_cols]) [0..<grid_rows] []"

record zone_entry =
  entry_name :: string
  entry_avgDiff :: real
  entry_similarityPct :: real

text \<open>Lines 875-884.\<close>

definition zone_entry_of :: "zone \<Rightarrow> zone_entry" where
  "zone_entry_of z =
     (let avg = (if zone_count z \<noteq> 0 then zone_sum z / real (zone_count z) else 0)
      in \<lparr>entry_name = zone_name z, entry_avgDiff = py_round_to 3 avg,
          entry_similarityPct = py_round_to 3 (similarity_of avg)\<rparr>)"

definition zone_report :: "diff_acc \<Rightarrow> zone_entry list" where
  "zone_report a = map zone_entry_of (zones a)"

text \<open>Line 886.\<close>

definition worst_grid_cells :: "grid_cell list \<Rightarrow> grid_cell list" where
  "worst_grid_cells grid_cells = take 12 (py_sorted_reverse avgDiff grid_cells)"

text \<open>The three threshold percentages of the report (lines 907-909), before rounding.\<close>

definition px_diff_pct :: "nat \<Rightarrow> nat \<Rightarrow> py_error + real" where
  "px_diff_pct diff_gt px_total =
     (if px_total = 0 then Inl ZeroDivisionError else Inr ((real diff_gt * 100) / real px_total))"


subsection \<open>The grid cells as a list, for the proofs\<close>

text \<open>The entry lines 864-873 append for the cell \<open>(r, c)\<close> when both cell lists are long
  enough.\<close>

definition grid_cell_of :: "diff_acc \<Rightarrow> nat \<Rightarrow> nat \<Rightarrow> nat \<Rightarrow> grid_cell" where
  "grid_cell_of a grid_cols r c =
     (let idx = r * grid_cols + c;
          avg = (if cell_pixels a ! idx \<noteq> 0
                 then cell_sums a ! idx / real (cell_pixels a ! idx) else 0)
      in \<lparr>row = r, col = c, avgDiff = py_round_to 3 avg,
          similarityPct = py_round_to 3 (similarity_of avg)\<rparr>)"

section \<open>Run identifier and artifact paths (lines 745-753)\<close>

text \<open>The reading of \<open>datetime.now()\<close>. \<open>strftime("%Y%m%d_%H%M%S")\<close> prints the year on four
  digits (as it does for every year from 1000 on, which covers what the clock returns) and
  every other field on two, zero-padded; the microsecond is not printed.\<close>

record datetime =
  year :: nat
  month :: nat
  day :: nat
  hour :: nat
  minute :: nat
  second :: nat
  microsecond :: nat

definition two_digits :: "nat \<Rightarrow> string" where
  "two_digits n = [digit_char (n div 10 mod 10), digit_char (n mod 10)]"

definition four_digits :: "nat \<Rightarrow> string" where
  "four_digits n = two_digits (n div 100) @ two_digits (n mod 100)"

definition run_id_of :: "datetime \<Rightarrow> string" where
  "run_id_of t =
     four_digits (year t) @ two_digits (month t) @ two_digits (day t) @ ''_'' @
     two_digits (hour t) @ two_digits (minute t) @ two_digits (second t)"

text \<open>A valid \<open>datetime\<close> value.\<close>

definition valid_datetime :: "datetime \<Rightarrow> bool" where
  "valid_datetime t =
     (1 \<le> year t \<and> year t \<le> 9999 \<and> 1 \<le> month t \<and> month t \<le> 12 \<and> 1 \<le> day t \<and> day t \<le> 31 \<and>
      hour t < 24 \<and> minute t < 60 \<and> second t < 60 \<and> microsecond t < 1000000)"

text \<open>\<open>out_dir / name\<close> for a directory written without a trailing separator; \<open>pathlib\<close>'s
  normalisation of the directory part (\<open>.\<close>, an empty string, a trailing separator) is not
  modelled. The directory part depends on \<open>output_dir\<close> alone.\<close>

definition path_join :: "string \<Rightarrow> string \<Rightarrow> string" where
  "path_join dir name = dir @ ''/'' @ name"

record artifacts =
  emulatorRaw :: string
  figmaNode :: string
  emulatorScaled :: string
  emulatorAligned :: string
  heatmapPath :: string

definition artifact_paths :: "string \<Rightarrow> string \<Rightarrow> artifacts" where
  "artifact_paths output_dir run_id =
     \<lparr>emulatorRaw = path_join output_dir (run_id @ ''_emulator_raw.png''),
      figmaNode = path_join output_dir (run_id @ ''_figma_node.png''),
      emulatorScaled = path_join output_dir (run_id @ ''_emulator_scaled.png''),
      emulatorAligned = path_join output_dir (run_id @ ''_emulator_aligned.png''),
      heatmapPath = path_join output_dir (run_id @ ''_heatmap.png'')\<rparr>"

text \<open>The five files one run writes.\<close>

definition artifact_files :: "string \<Rightarrow> datetime \<Rightarrow> string list" where
  "artifact_files output_dir t =
     (let p = artifact_paths output_dir (run_id_of t)
      in [emulatorRaw p, figmaNode p, emulatorScaled p, emulatorAligned p, heatmapPath p])"

text \<open>The fields of the clock reading that the run identifier prints.\<close>

definition printed_fields :: "datetime \<Rightarrow> nat \<times> nat \<times> nat \<times> nat \<times> nat \<times> nat" where
  "printed_fields t = (year t, month t, day t, hour t, minute t, second t)"

section \<open>Token resolution: \<open>_resolve_figma_token\<close>\<close>

definition resolve_figma_token :: "string option \<Rightarrow> string option \<Rightarrow> py_error + string" where
  "resolve_figma_token figma_token env_token =
     (let token = py_strip (case py_or figma_token env_token of None \<Rightarrow> [] | Some s \<Rightarrow> s)
      in if token = []
         then Inl (RuntimeError
                ''Figma token is required. Pass figma_token or set FIGMA_TOKEN env var.'')
         else Inr token)"

section \<open>The report\<close>

record figma_info =
  fileKey :: string
  nodeId :: string
  figmaScale :: real
  figmaWidth :: nat
  figmaHeight :: nat
  useAbsoluteBounds :: bool

record alignment_info =
  scaledWidth :: nat
  scaledHeight :: nat
  bestYOffset :: nat
  coarseMaeAtBestOffset :: score

record metrics_info =
  metricsMae :: real
  metricsRmse :: real
  metricsSimilarityPct :: real
  pxDiffGt10Pct :: real
  pxDiffGt25Pct :: real
  pxDiffGt50Pct :: real

record report =
  figma :: figma_info
  alignment :: alignment_info
  metrics :: metrics_info
  zonesReport :: "zone_entry list"
  worstGridCells :: "grid_cell list"
  artifactPaths :: artifacts

text \<open>\<open>round(best_mae, 4)\<close>; rounding infinity gives infinity.\<close>

definition round_score :: "nat \<Rightarrow> score \<Rightarrow> score" where
  "round_score n s = (case s of PosInf \<Rightarrow> PosInf | Finite x \<Rightarrow> Finite (py_round_to n x))"

section \<open>The collaborators and \<open>compare_screen_with_figma\<close>\<close>

text \<open>
  What the function reads from outside: the environment variable, the clock, the device,
  the Figma API, the download, the PNG decoder and the LANCZOS filter of \<open>Image.resize\<close>.
  Each fallible collaborator returns an error or its result. Creating the directory and
  saving an image are assumed to succeed.
\<close>

record world =
  env_figma_token :: "string option"
  now :: datetime
  screencap :: "py_error + string"
  figma_node_image_url :: "string \<Rightarrow> string \<Rightarrow> string \<Rightarrow> real \<Rightarrow> bool \<Rightarrow> py_error + string"
  download_binary_file :: "string \<Rightarrow> py_error + string"
  png_decode :: "string \<Rightarrow> py_error + pil_image"
  lanczos :: "pil_image \<Rightarrow> nat \<Rightarrow> nat \<Rightarrow> nat \<Rightarrow> nat \<Rightarrow> rgb"

text \<open>The effects on the outside, in the order they happen.\<close>

datatype io_event =
    MakeDirs string
  | CaptureScreenshot string
  | FigmaApiRequest string string
  | DownloadFile string string
  | SaveImage string

record request =
  file_key :: string
  node_id :: string
  figma_token :: "string option"
  scale :: real
  use_absolute_bounds :: bool
  grid_cols :: int
  grid_rows :: int
  output_dir :: string

text \<open>\<open>int(round(emu_raw_img.height * target_w / emu_raw_img.width))\<close> (line 770).\<close>

definition scaled_height :: "nat \<Rightarrow> nat \<Rightarrow> nat \<Rightarrow> py_error + nat" where
  "scaled_height emu_height target_w emu_width =
     (if emu_width = 0 then Inl ZeroDivisionError
      else Inr (nat (py_round (real (emu_height * target_w) / real emu_width))))"

definition dimension_message :: "nat \<Rightarrow> nat \<Rightarrow> string" where
  "dimension_message scaled_h target_h =
     ''Scaled emulator image is shorter than Figma image ('' @ str_nat scaled_h @ '' < '' @
     str_nat target_h @ '').''"

text \<open>\<open>Image.resize((w, h), LANCZOS)\<close>: the size is the one asked for, the samples are the
  filter's. Decoded PNG images have a positive width and height; what the imaging library
  does with an empty size is not modelled.\<close>

definition resize :: "world \<Rightarrow> pil_image \<Rightarrow> nat \<Rightarrow> nat \<Rightarrow> pil_image" where
  "resize w img new_w new_h = \<lparr>width = new_w, height = new_h, pixels = lanczos w img new_w new_h\<rparr>"

text \<open>Lines 857-920: the values after the pass and the returned dictionary.\<close>

definition build_report ::
  "request \<Rightarrow> artifacts \<Rightarrow> nat \<Rightarrow> nat \<Rightarrow> nat \<Rightarrow> nat \<times> score \<Rightarrow> diff_acc \<Rightarrow> py_error + report" where
  "build_report rq paths target_w target_h scaled_h best a =
     (case global_metrics a target_w target_h of
        Inl e \<Rightarrow> Inl e
      | Inr m \<Rightarrow>
     (case build_grid_cells a (nat (grid_cols rq)) (nat (grid_rows rq)) of
        Inl e \<Rightarrow> Inl e
      | Inr grid_cells \<Rightarrow>
     (case px_diff_pct (diff_gt_10 a) (target_w * target_h) of
        Inl e \<Rightarrow> Inl e
      | Inr p10 \<Rightarrow>
     (case px_diff_pct (diff_gt_25 a) (target_w * target_h) of
        Inl e \<Rightarrow> Inl e
      | Inr p25 \<Rightarrow>
     (case px_diff_pct (diff_gt_50 a) (target_w * target_h) of
        Inl e \<Rightarrow> Inl e
      | Inr p50 \<Rightarrow>
         Inr \<lparr>figma = \<lparr>fileKey = file_key rq, nodeId = node_id rq, figmaScale = scale rq,
                        figmaWidth = target_w, figmaHeight = target_h,
                        useAbsoluteBounds = use_absolute_bounds rq\<rparr>,
               alignment = \<lparr>scaledWidth = target_w, scaledHeight = scaled_h,
                            bestYOffset = fst best,
                            coarseMaeAtBestOffset = round_score 4 (snd best)\<rparr>,
               metrics = \<lparr>metricsMae = py_round_to 4 (mae m),
                          metricsRmse = py_round_to 4 (rmse m),
                          metricsSimilarityPct = py_round_to 4 (similarity_pct m),
                          pxDiffGt10Pct = py_round_to 4 p10,
                          pxDiffGt25Pct = py_round_to 4 p25,
                          pxDiffGt50Pct = py_round_to 4 p50\<rparr>,
               zonesReport = zone_report a,
               worstGridCells = worst_grid_cells grid_cells,
               artifactPaths = paths\<rparr>)))))"

text \<open>Lines 769-920, once both images are decoded. The result is the list of effects and
  the report or the error.\<close>

definition compare_images ::
  "world \<Rightarrow> request \<Rightarrow> artifacts \<Rightarrow> pil_image \<Rightarrow> pil_image \<Rightarrow>
     io_event list \<times> (py_error + report)" where
  "compare_images w rq paths fig_img emu_raw_img =
     (let target_w = width fig_img; target_h = height fig_img
      in case scaled_height (height emu_raw_img) target_w (width emu_raw_img) of
           Inl e \<Rightarrow> ([], Inl e)
         | Inr scaled_h \<Rightarrow>
            if scaled_h < target_h
            then ([], Inl (RuntimeError (dimension_message scaled_h target_h)))
            else
              (let emu_scaled = resize w emu_raw_img target_w scaled_h;
                   ev1 = [SaveImage (emulatorScaled paths)]
               in case offset_search fig_img emu_scaled (scaled_h - target_h) of
                    Inl e \<Rightarrow> (ev1, Inl e)
                  | Inr best \<Rightarrow>
                     (let emu_aligned =
                            crop emu_scaled 0 (fst best) target_w (fst best + target_h);
                          ev2 = ev1 @ [SaveImage (emulatorAligned paths)]
                      in case diff_pass fig_img emu_aligned
                                (nat (grid_cols rq)) (nat (grid_rows rq)) of
                           Inl e \<Rightarrow> (ev2, Inl e)
                         | Inr a \<Rightarrow>
                            (ev2 @ [SaveImage (heatmapPath paths)],
                             build_report rq paths target_w target_h scaled_h best a))))"

text \<open>The whole function (lines 735-920).\<close>

definition compare_screen_with_figma ::
  "world \<Rightarrow> request \<Rightarrow> io_event list \<times> (py_error + report)" where
  "compare_screen_with_figma w rq =
     (if py_strip (file_key rq) = [] then ([], Inl (RuntimeError ''file_key is required.''))
      else if py_strip (node_id rq) = [] then ([], Inl (RuntimeError ''node_id is required.''))
      else if scale rq \<le> 0 then ([], Inl (RuntimeError ''scale must be > 0.''))
      else if grid_cols rq \<le> 0 \<or> grid_rows rq \<le> 0
        then ([], Inl (RuntimeError ''grid_cols and grid_rows must be > 0.''))
      else
        (case resolve_figma_token (figma_token rq) (env_figma_token w) of
           Inl e \<Rightarrow> ([], Inl e)
         | Inr token \<Rightarrow>
            (let paths = artifact_paths (output_dir rq) (run_id_of (now w));
                 ev1 = [MakeDirs (output_dir rq), CaptureScreenshot (emulatorRaw paths)]
             in case screencap w of
                  Inl e \<Rightarrow> (ev1, Inl e)
                | Inr raw_bytes \<Rightarrow>
                   (let ev2 = ev1 @ [FigmaApiRequest (file_key rq) (node_id rq)]
                    in case figma_node_image_url w (file_key rq) (node_id rq) token
                              (scale rq) (use_absolute_bounds rq) of
                         Inl e \<Rightarrow> (ev2, Inl e)
                       | Inr figma_image_url \<Rightarrow>
                          (let ev3 = ev2 @ [DownloadFile figma_image_url (figmaNode paths)]
                           in case download_binary_file w figma_image_url of
                                Inl e \<Rightarrow> (ev3, Inl e)
                              | Inr fig_bytes \<Rightarrow>
                                 (case png_decode w fig_bytes of
                                    Inl e \<Rightarrow> (ev3, Inl e)
                                  | Inr fig_img \<Rightarrow>
                                     (case png_decode w raw_bytes of
                                        Inl e \<Rightarrow> (ev3, Inl e)
                                      | Inr emu_raw_img \<Rightarrow>
                                         (case compare_images w rq paths fig_img emu_raw_img of
                                            (ev, res) \<Rightarrow> (ev3 @ ev, res)))))))))"

section \<open>Loop lemmas\<close>

lemma for_loop_append:
  "for_loop body (xs @ ys) s =
     (case for_loop body xs s of Inl e \<Rightarrow> Inl e | Inr s' \<Rightarrow> for_loop body ys s')"
  by (induction xs arbitrary: s) (auto split: sum.splits)

text \<open>A loop whose every iteration succeeds and keeps a prefix-indexed invariant.\<close>

lemma for_loop_invariant:
  assumes "P [] s"
    and "\<And>pre x t. P pre t \<Longrightarrow> \<exists>suf. xs = pre @ x # suf \<Longrightarrow>
           \<exists>t'. body x t = Inr t' \<and> P (pre @ [x]) t'"
  shows "\<exists>s'. for_loop body xs s = Inr s' \<and> P xs s'"
proof -
  have "\<And>pre s. P pre s \<Longrightarrow> \<exists>suf. xs = pre @ suf \<Longrightarrow>
          (\<And>ys. xs = pre @ ys \<Longrightarrow> \<exists>s'. for_loop body ys s = Inr s' \<and> P xs s')"
  proof -
    fix pre s ys
    assume "P pre s" and "\<exists>suf. xs = pre @ suf" and "xs = pre @ ys"
    then show "\<exists>s'. for_loop body ys s = Inr s' \<and> P xs s'"
    proof (induction ys arbitrary: pre s)
      case Nil
      then show ?case by simp
    next
      case (Cons y ys)
      from Cons.prems have "\<exists>suf. xs = pre @ y # suf" by blast
      with assms(2) [OF Cons.prems(1)] obtain t'
        where t': "body y s = Inr t'" "P (pre @ [y]) t'" by blast
      from Cons.prems(3) have split: "xs = (pre @ [y]) @ ys" by simp
      then have "\<exists>suf. xs = (pre @ [y]) @ suf" by blast
      from Cons.IH [OF t'(2) this split] t'(1) show ?case by simp
    qed
  qed
  from this [of "[]" s xs] assms(1) show ?thesis by simp
qed


section \<open>The coarse score is total\<close>


lemma py_range_2_even: "even i \<Longrightarrow> py_range i n 2 = filter even [i..<n]"
proof (induction i n "2::nat" rule: py_range.induct)
  case (1 i stop)
  show ?case
  proof (cases "stop \<le> i")
    case True
    then show ?thesis by (simp add: py_range.simps)
  next
    case False
    then have u: "[i..<stop] = i # [Suc i..<stop]" by (simp add: upt_conv_Cons)
    have v: "filter even [Suc i..<stop] = filter even [i + 2..<stop]"
    proof (cases "Suc i < stop")
      case True
      then have "[Suc i..<stop] = Suc i # [i + 2..<stop]" by (simp add: upt_conv_Cons)
      with 1(2) show ?thesis by simp
    next
      case False
      then show ?thesis by simp
    qed
    from False 1 have "py_range (i + 2) stop 2 = filter even [i + 2..<stop]" by simp
    with False u v 1(2) show ?thesis by (subst py_range.simps) simp
  qed
qed

lemma py_range_length_0: "0 < step \<Longrightarrow> (py_range 0 n step = []) = (n = 0)"
  by (subst py_range.simps) simp

lemma for_loop_sum:
  assumes "\<And>x t c. x \<in> set xs \<Longrightarrow> body x (t, c) = Inr (t + f x, c + k)"
  shows "for_loop body xs (t, c) = Inr (t + sum_list (map f xs), c + k * length xs)"
  using assms by (induction xs arbitrary: t c) (simp_all add: algebra_simps)



lemma abs_delta_bounds:
  "valid_rgb p \<Longrightarrow> valid_rgb q \<Longrightarrow> 0 \<le> abs_delta p q \<and> abs_delta p q \<le> 765"
  by (cases p; cases q) (auto simp: valid_rgb_def abs_delta_def)

lemma sum_list_bounds:
  fixes f :: "'a \<Rightarrow> real"
  assumes "\<And>x. x \<in> set xs \<Longrightarrow> 0 \<le> f x \<and> f x \<le> c"
  shows "0 \<le> sum_list (map f xs) \<and> sum_list (map f xs) \<le> c * real (length xs)"
  using assms by (induction xs) (auto simp: algebra_simps intro: add_mono)

lemma coarse_row_ok:
  assumes "width fig \<le> width emu" "y < height fig" "y + off < height emu"
    and "\<And>x. x \<in> set (py_range 0 (width fig) step) \<Longrightarrow> x < width fig"
  shows "coarse_row fig emu off step y (t, c) =
     Inr (t + (\<Sum>x\<leftarrow>py_range 0 (width fig) step.
                 real_of_int (abs_delta (pixels fig x y) (pixels emu x (y + off)))),
          c + 3 * length (py_range 0 (width fig) step))"
  unfolding coarse_row_def
  by (rule for_loop_sum) (use assms in \<open>auto simp: coarse_px_def load_px_def dest!: assms(4)\<close>)

lemma coarse_loops_ok:
  assumes "width fig \<le> width emu" "height fig + off \<le> height emu"
  shows "for_loop (coarse_row fig emu off 2) (py_range 0 (height fig) 2) (0, 0) =
     Inr ((\<Sum>y\<leftarrow>filter even [0..<height fig]. \<Sum>x\<leftarrow>filter even [0..<width fig].
              real_of_int (abs_delta (pixels fig x y) (pixels emu x (y + off)))),
          3 * length (filter even [0..<width fig]) * length (filter even [0..<height fig]))"
proof -
  have "for_loop (coarse_row fig emu off 2) (filter even [0..<height fig]) (0, 0) =
     Inr (0 + (\<Sum>y\<leftarrow>filter even [0..<height fig]. \<Sum>x\<leftarrow>filter even [0..<width fig].
              real_of_int (abs_delta (pixels fig x y) (pixels emu x (y + off)))),
          0 + (3 * length (filter even [0..<width fig])) * length (filter even [0..<height fig]))"
  proof (rule for_loop_sum)
    fix y t c
    assume "y \<in> set (filter even [0..<height fig])"
    then have y: "y < height fig" by simp
    with assms(2) have "y + off < height emu" by simp
    from coarse_row_ok [OF assms(1) y this, of 2 t c]
    show "coarse_row fig emu off 2 y (t, c) =
       Inr (t + (\<Sum>x\<leftarrow>filter even [0..<width fig].
                 real_of_int (abs_delta (pixels fig x y) (pixels emu x (y + off)))),
            c + 3 * length (filter even [0..<width fig]))"
      by (simp add: py_range_2_even)
  qed
  then show ?thesis by (simp add: py_range_2_even)
qed

lemma filter_even_empty: "(filter even [0..<n] = []) = (n = 0)"
proof (cases n)
  case 0
  then show ?thesis by simp
next
  case (Suc m)
  then have "[0..<n] = 0 # [1..<n]" by (simp add: upt_conv_Cons)
  then show ?thesis using Suc by simp
qed

text \<open>
  Claim C10. The coarse score is total. For byte-valued images and an offset that keeps
  the window inside the scaled capture, \<open>_coarse_mae\<close> with stride 2 returns a value in
  \<open>[0, 255]\<close>: it is 255 when the reference has width or height 0 (no pixel is visited,
  nothing is divided), and otherwise the sum of the absolute channel differences over the
  visited pixels (even \<open>x\<close>, even \<open>y\<close>) divided by the number of channel samples compared.
\<close>

theorem coarse_mae_total:
  assumes "wf_image fig" and "wf_image emu"
    and "width fig \<le> width emu" and "height fig + y_offset \<le> height emu"
  shows "\<exists>s. coarse_mae fig emu y_offset 2 = Inr s \<and> 0 \<le> s \<and> s \<le> 255 \<and>
     s = (if width fig = 0 \<or> height fig = 0 then 255
          else (\<Sum>y\<leftarrow>filter even [0..<height fig]. \<Sum>x\<leftarrow>filter even [0..<width fig].
                  real_of_int (abs_delta (pixels fig x y) (pixels emu x (y + y_offset))))
               / real (3 * (length (filter even [0..<width fig]) *
                            length (filter even [0..<height fig]))))"
proof -
  let ?ys = "filter even [0..<height fig]" and ?xs = "filter even [0..<width fig]"
  let ?d = "\<lambda>x y. real_of_int (abs_delta (pixels fig x y) (pixels emu x (y + y_offset)))"
  let ?tot = "\<Sum>y\<leftarrow>?ys. \<Sum>x\<leftarrow>?xs. ?d x y"
  let ?count = "3 * length ?xs * length ?ys"
  have d: "0 \<le> ?d x y \<and> ?d x y \<le> 765" if "x \<in> set ?xs" "y \<in> set ?ys" for x y
  proof -
    from that assms(3,4) have "x < width fig" "y < height fig" "x < width emu"
      "y + y_offset < height emu" by auto
    with assms(1,2) have "valid_rgb (pixels fig x y)" "valid_rgb (pixels emu x (y + y_offset))"
      by (auto simp: wf_image_def)
    from abs_delta_bounds [OF this] show ?thesis by simp
  qed
  have row: "0 \<le> (\<Sum>x\<leftarrow>?xs. ?d x y) \<and> (\<Sum>x\<leftarrow>?xs. ?d x y) \<le> 765 * real (length ?xs)"
    if "y \<in> set ?ys" for y
    by (rule sum_list_bounds) (use d that in blast)
  have "0 \<le> ?tot \<and> ?tot \<le> (765 * real (length ?xs)) * real (length ?ys)"
    by (rule sum_list_bounds) (use row in blast)
  then have tot: "0 \<le> ?tot" "?tot \<le> 255 * real ?count" by simp_all
  have run: "coarse_mae fig emu y_offset 2 = Inr (if ?count = 0 then 255 else ?tot / real ?count)"
    by (simp add: coarse_mae_def coarse_loops_ok [OF assms(3,4)])
  have zero: "(?count = 0) = (width fig = 0 \<or> height fig = 0)"
    using filter_even_empty [of "width fig"] filter_even_empty [of "height fig"] by auto
  have "0 \<le> ?tot / real ?count \<and> ?tot / real ?count \<le> 255" if "?count \<noteq> 0"
  proof -
    from that have "0 < real ?count" by simp
    with tot show ?thesis by (simp add: pos_divide_le_eq)
  qed
  with run zero show ?thesis by (auto simp: mult.assoc)
qed

theorem coarse_mae_total_witness:
  "coarse_mae \<lparr>width = 2, height = 1, pixels = (\<lambda>x y. (40, 75, 140))\<rparr>
     \<lparr>width = 2, height = 3, pixels = (\<lambda>x y. (35, 70, 135))\<rparr> 2 2 = Inr 5"
proof -
  let ?fig = "\<lparr>width = 2, height = 1, pixels = (\<lambda>x y. (40, 75, 140))\<rparr> :: pil_image"
  let ?emu = "\<lparr>width = 2, height = 3, pixels = (\<lambda>x y. (35, 70, 135))\<rparr> :: pil_image"
  have "wf_image ?fig" "wf_image ?emu" by (simp_all add: wf_image_def valid_rgb_def)
  from coarse_mae_total [OF this, of 2] show ?thesis
    by (auto simp: abs_delta_def upt_conv_Cons)
qed


section \<open>The offset search returns the first minimum\<close>


lemma upt_split_nth: "[0..<m] = pre @ x # suf \<Longrightarrow> x = length pre \<and> x < m"
proof -
  assume a: "[0..<m] = pre @ x # suf"
  then have "length [0..<m] = length (pre @ x # suf)" by simp
  then have l: "length pre < m" by simp
  have "[0..<m] ! length pre = x" using a by (simp add: nth_append)
  with l show ?thesis by simp
qed

lemma coarse_mae_returns:
  assumes "width fig \<le> width emu" "height fig + off \<le> height emu"
  shows "\<exists>s. coarse_mae fig emu off 2 = Inr s"
  by (simp add: coarse_mae_def coarse_loops_ok [OF assms] split: prod.splits)

lemma search_loop:
  assumes f: "\<And>o'. o' \<le> n \<Longrightarrow> coarse_mae fig emu o' 2 = Inr (f o')"
  shows "\<exists>best_y. offset_search fig emu n = Inr (best_y, Finite (f best_y)) \<and> best_y \<le> n \<and>
           (\<forall>o'\<le>n. f best_y \<le> f o' \<and> (o' < best_y \<longrightarrow> f best_y < f o'))"
proof -
  define P where "P = (\<lambda>(pre :: nat list) (st :: nat \<times> score).
     (pre = [] \<longrightarrow> st = (0, PosInf)) \<and>
     (pre \<noteq> [] \<longrightarrow> fst st < length pre \<and> snd st = Finite (f (fst st)) \<and>
        (\<forall>o'<length pre. f (fst st) \<le> f o' \<and> (o' < fst st \<longrightarrow> f (fst st) < f o'))))"
  have "\<exists>s'. for_loop (search_step fig emu) [0..<n + 1] (0, PosInf) = Inr s' \<and> P [0..<n + 1] s'"
  proof (rule for_loop_invariant)
    show "P [] (0, PosInf)" by (simp add: P_def)
  next
    fix pre x t
    assume inv: "P pre t" and "\<exists>suf. [0..<n + 1] = pre @ x # suf"
    then obtain suf where "[0..<n + 1] = pre @ x # suf" by blast
    from upt_split_nth [OF this] have x: "x = length pre" "x \<le> n" by simp_all
    have step: "search_step fig emu x t =
       Inr (if score_less (f x) (snd t) then (x, Finite (f x)) else t)"
      by (simp add: search_step_def f [OF x(2)])
    have "P (pre @ [x]) (if score_less (f x) (snd t) then (x, Finite (f x)) else t)"
    proof (cases "pre = []")
      case True
      with inv x show ?thesis by (simp add: P_def score_less_def)
    next
      case False
      with inv have t: "fst t < x" "snd t = Finite (f (fst t))"
        "\<forall>o'<x. f (fst t) \<le> f o' \<and> (o' < fst t \<longrightarrow> f (fst t) < f o')"
        using x by (simp_all add: P_def)
      show ?thesis
      proof (cases "f x < f (fst t)")
        case True
        with t x show ?thesis
          by (auto simp: P_def score_less_def less_Suc_eq)
      next
        case False
        with t x show ?thesis
          by (cases t) (auto simp: P_def score_less_def less_Suc_eq)
      qed
    qed
    with step show "\<exists>t'. search_step fig emu x t = Inr t' \<and> P (pre @ [x]) t'" by simp
  qed
  then obtain s' where s': "offset_search fig emu n = Inr s'" "P [0..<n + 1] s'"
    by (auto simp: offset_search_def)
  from s'(2) have "fst s' \<le> n" "snd s' = Finite (f (fst s'))"
    "\<forall>o'\<le>n. f (fst s') \<le> f o' \<and> (o' < fst s' \<longrightarrow> f (fst s') < f o')"
    by (simp_all add: P_def less_Suc_eq_le)
  with s'(1) show ?thesis by (cases s') auto
qed

text \<open>
Claim C1. The offset search over a reference and a scaled capture at least as wide and
  as high returns an offset \<open>best_y\<close> in \<open>[0, scaledHeight - referenceHeight]\<close> together
  with its finite coarse score; no offset of that range scores lower, and every smaller
  offset scores strictly higher: the first offset with the minimum score wins. When the
  two heights are equal, \<open>best_y\<close> is 0.
\<close>

theorem offset_search_first_minimum:
  assumes "width fig \<le> width emu" and "height fig \<le> height emu"
  shows "\<exists>best_y s. offset_search fig emu (height emu - height fig) = Inr (best_y, Finite s) \<and>
           best_y \<le> height emu - height fig \<and>
           coarse_mae fig emu best_y 2 = Inr s \<and>
           (\<forall>o'\<le>height emu - height fig. \<exists>t. coarse_mae fig emu o' 2 = Inr t \<and> s \<le> t \<and>
               (o' < best_y \<longrightarrow> s < t)) \<and>
           (height emu = height fig \<longrightarrow> best_y = 0)"
proof -
  let ?n = "height emu - height fig"
  define f where "f = (\<lambda>o'. case coarse_mae fig emu o' 2 of Inr s \<Rightarrow> s | Inl e \<Rightarrow> 0)"
  have f: "coarse_mae fig emu o' 2 = Inr (f o')" if "o' \<le> ?n" for o'
  proof -
    from that assms(2) have "height fig + o' \<le> height emu" by simp
    from coarse_mae_returns [OF assms(1) this] show ?thesis by (auto simp: f_def)
  qed
  from search_loop [of ?n fig emu f, OF f] obtain best_y where
    b: "offset_search fig emu ?n = Inr (best_y, Finite (f best_y))" "best_y \<le> ?n"
       "\<forall>o'\<le>?n. f best_y \<le> f o' \<and> (o' < best_y \<longrightarrow> f best_y < f o')" by blast
  from b(2) have z: "height emu = height fig \<longrightarrow> best_y = 0" by auto
  from b f z show ?thesis by auto
qed


lemma coarse_mae_value:
  assumes "width fig \<le> width emu" "height fig + off \<le> height emu"
  shows "coarse_mae fig emu off 2 =
     Inr (if width fig = 0 \<or> height fig = 0 then 255
          else (\<Sum>y\<leftarrow>filter even [0..<height fig]. \<Sum>x\<leftarrow>filter even [0..<width fig].
                  real_of_int (abs_delta (pixels fig x y) (pixels emu x (y + off))))
               / real (3 * length (filter even [0..<width fig]) *
                       length (filter even [0..<height fig])))"
  using filter_even_empty [of "width fig"] filter_even_empty [of "height fig"]
  by (simp add: coarse_mae_def coarse_loops_ok [OF assms])

theorem offset_search_first_minimum_witness:
  "offset_search \<lparr>width = 1, height = 1, pixels = (\<lambda>x y. (10, 10, 10))\<rparr>
     \<lparr>width = 1, height = 3, pixels = (\<lambda>x y. if y = 0 then (13, 10, 10) else (10, 10, 10))\<rparr>
     (3 - 1) = Inr (1, Finite 0)"
proof -
  let ?fig = "\<lparr>width = 1, height = 1, pixels = (\<lambda>x y. (10, 10, 10))\<rparr> :: pil_image"
  let ?emu = "\<lparr>width = 1, height = 3,
                pixels = (\<lambda>x y. if y = 0 then (13, 10, 10) else (10, 10, 10))\<rparr> :: pil_image"
  have v: "coarse_mae ?fig ?emu 0 2 = Inr 1" "coarse_mae ?fig ?emu 1 2 = Inr 0"
    "coarse_mae ?fig ?emu 2 2 = Inr 0"
    by (simp_all add: coarse_mae_value abs_delta_def)
  from offset_search_first_minimum [of ?fig ?emu] obtain best_y s where
    r: "offset_search ?fig ?emu 2 = Inr (best_y, Finite s)" "best_y \<le> 2"
      "coarse_mae ?fig ?emu best_y 2 = Inr s"
      "\<forall>o'\<le>2. \<exists>t. coarse_mae ?fig ?emu o' 2 = Inr t \<and> s \<le> t \<and> (o' < best_y \<longrightarrow> s < t)"
    by auto
  have "\<exists>t. coarse_mae ?fig ?emu 1 2 = Inr t \<and> s \<le> t \<and> (1 < best_y \<longrightarrow> s < t)"
    using r(4) [rule_format, of 1] by simp
  with v(2) have s: "s \<le> 0" "1 < best_y \<longrightarrow> s < 0" by auto
  from r(2) have "best_y = 0 \<or> best_y = 1 \<or> best_y = 2" by auto
  with r(3) v s have "best_y = 1 \<and> s = 0" by auto
  with r(1) show ?thesis by simp
qed


section \<open>Run identifiers and artifact paths\<close>



lemma digit_char_code: "a < 10 \<Longrightarrow> (of_char (digit_char a) :: nat) = 48 + a"
proof -
  assume "a < 10"
  then consider "a = 0" | "a = 1" | "a = 2" | "a = 3" | "a = 4" | "a = 5" | "a = 6"
    | "a = 7" | "a = 8" | "a = 9" by atomize_elim arith
  then show ?thesis by cases (simp_all add: digit_char_def)
qed

lemma digit_char_inj: "a < 10 \<Longrightarrow> b < 10 \<Longrightarrow> digit_char a = digit_char b \<Longrightarrow> a = b"
proof -
  assume a: "a < 10" "b < 10" "digit_char a = digit_char b"
  from a(3) have "(of_char (digit_char a) :: nat) = of_char (digit_char b)" by simp
  with a(1,2) show "a = b" by (simp add: digit_char_code)
qed

lemma two_digits_inj:
  assumes "a < 100" "b < 100" "two_digits a = two_digits b"
  shows "a = b"
proof -
  from assms(1,2) have lt: "a div 10 < 10" "b div 10 < 10" by simp_all
  from assms(3) have "digit_char (a div 10 mod 10) = digit_char (b div 10 mod 10)"
    "digit_char (a mod 10) = digit_char (b mod 10)" by (simp_all add: two_digits_def)
  with lt have "digit_char (a div 10) = digit_char (b div 10)"
    "digit_char (a mod 10) = digit_char (b mod 10)" by simp_all
  with lt have "a div 10 = b div 10" "a mod 10 = b mod 10"
    by (simp_all add: digit_char_inj)
  then show ?thesis by (metis div_mult_mod_eq)
qed

lemma length_two_digits [simp]: "length (two_digits n) = 2"
  by (simp add: two_digits_def)

lemma length_four_digits [simp]: "length (four_digits n) = 4"
  by (simp add: four_digits_def)

lemma four_digits_inj:
  assumes "a < 10000" "b < 10000" "four_digits a = four_digits b"
  shows "a = b"
proof -
  from assms(3) have "two_digits (a div 100) = two_digits (b div 100)"
    "two_digits (a mod 100) = two_digits (b mod 100)" by (simp_all add: four_digits_def)
  moreover from assms(1,2) have "a div 100 < 100" "b div 100 < 100" by simp_all
  ultimately have "a div 100 = b div 100" "a mod 100 = b mod 100"
    by (auto intro: two_digits_inj)
  then show ?thesis by (metis div_mult_mod_eq)
qed

lemma length_run_id [simp]: "length (run_id_of t) = 15"
  by (simp add: run_id_of_def)

lemma run_id_inj:
  assumes "valid_datetime t1" "valid_datetime t2" "run_id_of t1 = run_id_of t2"
  shows "printed_fields t1 = printed_fields t2"
proof -
  from assms(3) have "four_digits (year t1) = four_digits (year t2)"
    "two_digits (month t1) = two_digits (month t2)" "two_digits (day t1) = two_digits (day t2)"
    "two_digits (hour t1) = two_digits (hour t2)" "two_digits (minute t1) = two_digits (minute t2)"
    "two_digits (second t1) = two_digits (second t2)"
    by (simp_all add: run_id_of_def)
  moreover from assms(1,2) have "year t1 < 10000" "year t2 < 10000" "month t1 < 100"
    "month t2 < 100" "day t1 < 100" "day t2 < 100" "hour t1 < 100" "hour t2 < 100"
    "minute t1 < 100" "minute t2 < 100" "second t1 < 100" "second t2 < 100"
    by (simp_all add: valid_datetime_def)
  ultimately show ?thesis
    by (simp add: printed_fields_def four_digits_inj two_digits_inj)
qed

lemma run_id_same_fields: "printed_fields t1 = printed_fields t2 \<Longrightarrow> run_id_of t1 = run_id_of t2"
  by (simp add: printed_fields_def run_id_of_def)

lemma paths_differ:
  assumes "length r1 = length r2" "r1 \<noteq> r2"
  shows "path_join d (r1 @ s1) \<noteq> path_join d (r2 @ s2)"
  using assms by (simp add: path_join_def)

text \<open>
Claim C9 as stated fails: the run identifier has the resolution of a second, so two
  runs started 0.9 s apart within the same second are given the same five file paths.
\<close>

theorem same_second_runs_collide:
  "artifact_files ''.mcp_pixel_diff''
     \<lparr>year = 2026, month = 11, day = 3, hour = 9, minute = 30, second = 5, microsecond = 100\<rparr> =
   artifact_files ''.mcp_pixel_diff''
     \<lparr>year = 2026, month = 11, day = 3, hour = 9, minute = 30, second = 5, microsecond = 900000\<rparr>"
  by (simp add: artifact_files_def run_id_of_def)

lemma artifact_files_map:
  "artifact_files d t = map (\<lambda>s. path_join d (run_id_of t @ s))
     [''_emulator_raw.png'', ''_figma_node.png'', ''_emulator_scaled.png'',
      ''_emulator_aligned.png'', ''_heatmap.png'']"
  by (simp add: artifact_files_def artifact_paths_def)

lemma artifact_file_form:
  "p \<in> set (artifact_files d t) \<Longrightarrow> \<exists>s. p = path_join d (run_id_of t @ s)"
  unfolding artifact_files_map by (auto simp only: set_map)

text \<open>
Claim C9, as amended. Two runs on the same output directory write disjoint sets of
  artifact files whenever their clock readings differ in a printed field (year, month,
  day, hour, minute or second); two runs whose readings agree on these fields, whatever
  their microseconds, get the same five paths.
\<close>

theorem artifact_files_disjoint:
  "(valid_datetime t1 \<and> valid_datetime t2 \<and> printed_fields t1 \<noteq> printed_fields t2 \<longrightarrow>
      set (artifact_files d t1) \<inter> set (artifact_files d t2) = {}) \<and>
   (printed_fields t1 = printed_fields t2 \<longrightarrow> artifact_files d t1 = artifact_files d t2)"
proof (intro conjI impI)
  assume a: "valid_datetime t1 \<and> valid_datetime t2 \<and> printed_fields t1 \<noteq> printed_fields t2"
  then have ne: "run_id_of t1 \<noteq> run_id_of t2" using run_id_inj [of t1 t2] by blast
  have len: "length (run_id_of t1) = length (run_id_of t2)" by simp
  show "set (artifact_files d t1) \<inter> set (artifact_files d t2) = {}"
  proof (rule ccontr)
    assume "set (artifact_files d t1) \<inter> set (artifact_files d t2) \<noteq> {}"
    then obtain p where "p \<in> set (artifact_files d t1)" "p \<in> set (artifact_files d t2)"
      by blast
    then obtain s1 s2 where p: "p = path_join d (run_id_of t1 @ s1)"
      "p = path_join d (run_id_of t2 @ s2)" by (blast dest: artifact_file_form)
    have "path_join d (run_id_of t1 @ s1) \<noteq> path_join d (run_id_of t2 @ s2)"
      by (rule paths_differ [OF len ne])
    with p show False by simp
  qed
next
  assume "printed_fields t1 = printed_fields t2"
  then have "run_id_of t1 = run_id_of t2" by (rule run_id_same_fields)
  then show "artifact_files d t1 = artifact_files d t2"
    by (simp add: artifact_files_def)
qed

theorem artifact_files_disjoint_witness:
  "set (artifact_files ''out''
     \<lparr>year = 2026, month = 11, day = 3, hour = 9, minute = 30, second = 5, microsecond = 0\<rparr>) \<inter>
   set (artifact_files ''out''
     \<lparr>year = 2026, month = 11, day = 3, hour = 9, minute = 30, second = 6, microsecond = 0\<rparr>) = {}"
  using artifact_files_disjoint [of
     "\<lparr>year = 2026, month = 11, day = 3, hour = 9, minute = 30, second = 5, microsecond = 0\<rparr>"
     "\<lparr>year = 2026, month = 11, day = 3, hour = 9, minute = 30, second = 6, microsecond = 0\<rparr>"
     "''out''"]
  by (simp add: valid_datetime_def printed_fields_def)



section \<open>Validation before any effect\<close>



lemma py_strip_Nil [simp]: "py_strip [] = []"
  by (simp add: py_strip_def)

lemma resolve_no_token:
  assumes "figma_token' = None \<or> figma_token' = Some []" "env = None \<or> env = Some []"
  shows "resolve_figma_token figma_token' env =
     Inl (RuntimeError ''Figma token is required. Pass figma_token or set FIGMA_TOKEN env var.'')"
  using assms by (auto simp: resolve_figma_token_def py_or_def)


lemma cmp_file_key:
  "py_strip (file_key rq) = [] \<Longrightarrow>
   compare_screen_with_figma w rq = ([], Inl (RuntimeError ''file_key is required.''))"
  by (simp add: compare_screen_with_figma_def)

lemma cmp_node_id:
  "py_strip (file_key rq) \<noteq> [] \<Longrightarrow> py_strip (node_id rq) = [] \<Longrightarrow>
   compare_screen_with_figma w rq = ([], Inl (RuntimeError ''node_id is required.''))"
  by (simp add: compare_screen_with_figma_def)

lemma cmp_scale:
  "py_strip (file_key rq) \<noteq> [] \<Longrightarrow> py_strip (node_id rq) \<noteq> [] \<Longrightarrow> scale rq \<le> 0 \<Longrightarrow>
   compare_screen_with_figma w rq = ([], Inl (RuntimeError ''scale must be > 0.''))"
  by (simp add: compare_screen_with_figma_def)

lemma cmp_grid:
  "py_strip (file_key rq) \<noteq> [] \<Longrightarrow> py_strip (node_id rq) \<noteq> [] \<Longrightarrow> 0 < scale rq \<Longrightarrow>
   grid_cols rq \<le> 0 \<or> grid_rows rq \<le> 0 \<Longrightarrow>
   compare_screen_with_figma w rq =
     ([], Inl (RuntimeError ''grid_cols and grid_rows must be > 0.''))"
  by (simp add: compare_screen_with_figma_def)

lemma cmp_token:
  "py_strip (file_key rq) \<noteq> [] \<Longrightarrow> py_strip (node_id rq) \<noteq> [] \<Longrightarrow> 0 < scale rq \<Longrightarrow>
   0 < grid_cols rq \<Longrightarrow> 0 < grid_rows rq \<Longrightarrow>
   resolve_figma_token (figma_token rq) (env_figma_token w) = Inl e \<Longrightarrow>
   compare_screen_with_figma w rq = ([], Inl e)"
  by (simp add: compare_screen_with_figma_def)

lemma cmp_invalid:
  assumes "py_strip (file_key rq) = [] \<or> py_strip (node_id rq) = [] \<or> scale rq \<le> 0 \<or>
      grid_cols rq \<le> 0 \<or> grid_rows rq \<le> 0"
  shows "\<exists>msg. compare_screen_with_figma w rq = ([], Inl (RuntimeError msg)) \<and>
         msg \<in> {''file_key is required.'', ''node_id is required.'', ''scale must be > 0.'',
                ''grid_cols and grid_rows must be > 0.''}"
proof -
  consider "py_strip (file_key rq) = []"
    | "py_strip (file_key rq) \<noteq> []" "py_strip (node_id rq) = []"
    | "py_strip (file_key rq) \<noteq> []" "py_strip (node_id rq) \<noteq> []" "scale rq \<le> 0"
    | "py_strip (file_key rq) \<noteq> []" "py_strip (node_id rq) \<noteq> []" "0 < scale rq"
      "grid_cols rq \<le> 0 \<or> grid_rows rq \<le> 0"
    using assms by fastforce
  then show ?thesis
  proof cases
    case 1
    from cmp_file_key [OF this] show ?thesis by simp
  next
    case 2
    from cmp_node_id [OF this] show ?thesis by simp
  next
    case 3
    from cmp_scale [OF this] show ?thesis by simp
  next
    case 4
    from cmp_grid [OF this] show ?thesis by simp
  qed
qed

text \<open>
Claim C8. Validation comes before every effect. A blank file key, a blank node id, a
  scale \<open>\<le> 0\<close> or a non-positive grid size makes \<open>compare_screen_with_figma\<close> raise
  one of the four validation errors with an empty list of effects: no directory made, no
  screenshot, no request, no file. A token that is missing or empty both as argument and
  in the environment also ends the call with an error and no effect; when the other
  inputs are valid that error is the one saying the token is required.
\<close>

theorem validation_before_io:
  "(py_strip (file_key rq) = [] \<or> py_strip (node_id rq) = [] \<or> scale rq \<le> 0 \<or>
      grid_cols rq \<le> 0 \<or> grid_rows rq \<le> 0 \<longrightarrow>
      (\<exists>msg. compare_screen_with_figma w rq = ([], Inl (RuntimeError msg)) \<and>
         msg \<in> {''file_key is required.'', ''node_id is required.'', ''scale must be > 0.'',
                ''grid_cols and grid_rows must be > 0.''})) \<and>
   ((figma_token rq = None \<or> figma_token rq = Some []) \<and>
    (env_figma_token w = None \<or> env_figma_token w = Some []) \<longrightarrow>
      (\<exists>msg. compare_screen_with_figma w rq = ([], Inl (RuntimeError msg)) \<and>
         (py_strip (file_key rq) \<noteq> [] \<and> py_strip (node_id rq) \<noteq> [] \<and> 0 < scale rq \<and>
          0 < grid_cols rq \<and> 0 < grid_rows rq \<longrightarrow>
            msg = ''Figma token is required. Pass figma_token or set FIGMA_TOKEN env var.'')))"
proof (intro conjI impI)
  assume "py_strip (file_key rq) = [] \<or> py_strip (node_id rq) = [] \<or> scale rq \<le> 0 \<or>
      grid_cols rq \<le> 0 \<or> grid_rows rq \<le> 0"
  then show "\<exists>msg. compare_screen_with_figma w rq = ([], Inl (RuntimeError msg)) \<and>
         msg \<in> {''file_key is required.'', ''node_id is required.'', ''scale must be > 0.'',
                ''grid_cols and grid_rows must be > 0.''}"
    by (rule cmp_invalid)
next
  assume "(figma_token rq = None \<or> figma_token rq = Some []) \<and>
    (env_figma_token w = None \<or> env_figma_token w = Some [])"
  then have r: "resolve_figma_token (figma_token rq) (env_figma_token w) =
     Inl (RuntimeError ''Figma token is required. Pass figma_token or set FIGMA_TOKEN env var.'')"
    by (intro resolve_no_token) simp_all
  show "\<exists>msg. compare_screen_with_figma w rq = ([], Inl (RuntimeError msg)) \<and>
         (py_strip (file_key rq) \<noteq> [] \<and> py_strip (node_id rq) \<noteq> [] \<and> 0 < scale rq \<and>
          0 < grid_cols rq \<and> 0 < grid_rows rq \<longrightarrow>
            msg = ''Figma token is required. Pass figma_token or set FIGMA_TOKEN env var.'')"
  proof (cases "py_strip (file_key rq) = [] \<or> py_strip (node_id rq) = [] \<or> scale rq \<le> 0 \<or>
      grid_cols rq \<le> 0 \<or> grid_rows rq \<le> 0")
    case True
    from cmp_invalid [OF this, of w] show ?thesis using True by fastforce
  next
    case False
    then have "compare_screen_with_figma w rq = ([], Inl (RuntimeError
      ''Figma token is required. Pass figma_token or set FIGMA_TOKEN env var.''))"
      using r by (intro cmp_token) simp_all
    then show ?thesis by simp
  qed
qed



theorem validation_before_io_witness:
  "(\<exists>msg. compare_screen_with_figma
      \<lparr>env_figma_token = None,
       now = \<lparr>year = 2026, month = 11, day = 3, hour = 9, minute = 30, second = 5,
               microsecond = 0\<rparr>,
       screencap = Inr ''raw'', figma_node_image_url = (\<lambda>k n t s b. Inr ''url''),
       download_binary_file = (\<lambda>u. Inr ''fig''),
       png_decode = (\<lambda>b. Inl (CollaboratorError ''not a PNG'')),
       lanczos = (\<lambda>img w h x y. (0, 0, 0))\<rparr>
      \<lparr>file_key = '''', node_id = ''21:1074'', figma_token = Some ''figd_test'', scale = 3,
       use_absolute_bounds = True, grid_cols = 6, grid_rows = 10,
       output_dir = ''.mcp_pixel_diff''\<rparr> = ([], Inl (RuntimeError msg))) \<and>
   compare_screen_with_figma
      \<lparr>env_figma_token = None,
       now = \<lparr>year = 2026, month = 11, day = 3, hour = 9, minute = 30, second = 5,
               microsecond = 0\<rparr>,
       screencap = Inr ''raw'', figma_node_image_url = (\<lambda>k n t s b. Inr ''url''),
       download_binary_file = (\<lambda>u. Inr ''fig''),
       png_decode = (\<lambda>b. Inl (CollaboratorError ''not a PNG'')),
       lanczos = (\<lambda>img w h x y. (0, 0, 0))\<rparr>
      \<lparr>file_key = ''file_key'', node_id = ''21:1074'', figma_token = None, scale = 3,
       use_absolute_bounds = True, grid_cols = 6, grid_rows = 10,
       output_dir = ''.mcp_pixel_diff''\<rparr> =
     ([], Inl (RuntimeError
        ''Figma token is required. Pass figma_token or set FIGMA_TOKEN env var.''))"
proof -
  let ?w = "\<lparr>env_figma_token = None,
       now = \<lparr>year = 2026, month = 11, day = 3, hour = 9, minute = 30, second = 5,
               microsecond = 0\<rparr>,
       screencap = Inr ''raw'', figma_node_image_url = (\<lambda>k n t s b. Inr ''url''),
       download_binary_file = (\<lambda>u. Inr ''fig''),
       png_decode = (\<lambda>b. Inl (CollaboratorError ''not a PNG'')),
       lanczos = (\<lambda>img w h x y. (0, 0, 0))\<rparr>"
  let ?rq1 = "\<lparr>file_key = '''', node_id = ''21:1074'', figma_token = Some ''figd_test'',
       scale = 3, use_absolute_bounds = True, grid_cols = 6, grid_rows = 10,
       output_dir = ''.mcp_pixel_diff''\<rparr>"
  let ?rq2 = "\<lparr>file_key = ''file_key'', node_id = ''21:1074'', figma_token = None, scale = 3,
       use_absolute_bounds = True, grid_cols = 6, grid_rows = 10,
       output_dir = ''.mcp_pixel_diff''\<rparr>"
  have s: "py_strip ''file_key'' \<noteq> []" "py_strip ''21:1074'' \<noteq> []"
    by (simp_all add: py_strip_def py_isspace_def)
  have a: "\<exists>msg. compare_screen_with_figma ?w ?rq1 = ([], Inl (RuntimeError msg))"
    using validation_before_io [of ?rq1 ?w] by auto
  have b: "compare_screen_with_figma ?w ?rq2 = ([], Inl (RuntimeError
        ''Figma token is required. Pass figma_token or set FIGMA_TOKEN env var.''))"
    using validation_before_io [of ?rq2 ?w] s by auto
  from a b show ?thesis by blast
qed



section \<open>The dimension error\<close>



lemma for_loop_error: "for_loop body xs s = Inl e \<Longrightarrow> \<exists>x t. body x t = Inl e"
proof (induction xs arbitrary: s)
  case Nil
  then show ?case by simp
next
  case (Cons x xs)
  then show ?case by (cases "body x s") auto
qed

lemma load_px_error: "load_px img x y = Inl e \<Longrightarrow> e = IndexError"
  by (auto simp: load_px_def split: if_splits)

lemma store_px_error: "store_px img x y v = Inl e \<Longrightarrow> e = IndexError"
  by (auto simp: store_px_def split: if_splits)

lemma coarse_px_error: "coarse_px fig emu sy y x acc = Inl e \<Longrightarrow> e = IndexError"
  by (auto simp: coarse_px_def split: sum.splits dest: load_px_error)

lemma coarse_row_error: "coarse_row fig emu off step y acc = Inl e \<Longrightarrow> e = IndexError"
  unfolding coarse_row_def by (blast dest: for_loop_error coarse_px_error)

lemma coarse_mae_error: "coarse_mae fig emu off step = Inl e \<Longrightarrow> e \<noteq> RuntimeError m"
  unfolding coarse_mae_def
  by (auto split: if_splits sum.splits dest!: for_loop_error coarse_row_error)

lemma search_step_error: "search_step fig emu off best = Inl e \<Longrightarrow> e \<noteq> RuntimeError m"
  unfolding search_step_def by (auto split: sum.splits dest: coarse_mae_error)

lemma offset_search_error: "offset_search fig emu n = Inl e \<Longrightarrow> e \<noteq> RuntimeError m"
  unfolding offset_search_def by (blast dest: for_loop_error search_step_error)

lemma diff_px_error:
  "diff_px fig emu tw th gc gr y yn x a = Inl e \<Longrightarrow> e \<noteq> RuntimeError m"
  unfolding diff_px_def Let_def
  by (auto split: sum.splits prod.splits if_splits dest: load_px_error store_px_error)

lemma diff_row_error: "diff_row fig emu tw th gc gr y a = Inl e \<Longrightarrow> e \<noteq> RuntimeError m"
  unfolding diff_row_def
  by (auto split: if_splits dest!: for_loop_error dest: diff_px_error)

lemma diff_pass_error: "diff_pass fig emu gc gr = Inl e \<Longrightarrow> e \<noteq> RuntimeError m"
  unfolding diff_pass_def Let_def by (blast dest: for_loop_error diff_row_error)

lemma py_index_error: "py_index xs i = Inl e \<Longrightarrow> e = IndexError"
  by (auto simp: py_index_def split: if_splits)

lemma grid_cell_step_error: "grid_cell_step a gc r c cells = Inl e \<Longrightarrow> e = IndexError"
  unfolding grid_cell_step_def Let_def
  by (auto split: sum.splits if_splits dest: py_index_error)

lemma build_grid_cells_error: "build_grid_cells a gc gr = Inl e \<Longrightarrow> e = IndexError"
  unfolding build_grid_cells_def
  by (blast dest: for_loop_error grid_cell_step_error)

lemma global_metrics_error: "global_metrics a tw th = Inl e \<Longrightarrow> e = ZeroDivisionError"
  by (auto simp: global_metrics_def Let_def split: if_splits)

lemma px_diff_pct_error: "px_diff_pct n t = Inl e \<Longrightarrow> e = ZeroDivisionError"
  by (auto simp: px_diff_pct_def split: if_splits)

lemma build_report_error:
  "build_report rq paths tw th sh best a = Inl e \<Longrightarrow> e \<noteq> RuntimeError m"
  unfolding build_report_def
  by (auto split: sum.splits
        dest: global_metrics_error build_grid_cells_error px_diff_pct_error)



lemma compare_images_short:
  assumes "scaled_height (height emu) (width fig) (width emu) = Inr sh" "sh < height fig"
  shows "compare_images w rq paths fig emu =
           ([], Inl (RuntimeError (dimension_message sh (height fig))))"
  using assms by (simp add: compare_images_def)

lemma compare_images_not_short:
  assumes "scaled_height (height emu) (width fig) (width emu) = Inr sh" "\<not> sh < height fig"
  shows "snd (compare_images w rq paths fig emu) \<noteq> Inl (RuntimeError m)"
proof
  assume r: "snd (compare_images w rq paths fig emu) = Inl (RuntimeError m)"
  let ?scaled = "resize w emu (width fig) sh"
  show False
  proof (cases "offset_search fig ?scaled (sh - height fig)")
    case (Inl e)
    with assms r offset_search_error [OF Inl, of m] show False
      by (simp add: compare_images_def)
  next
    case (Inr best)
    let ?al = "crop ?scaled 0 (fst best) (width fig) (fst best + height fig)"
    show False
    proof (cases "diff_pass fig ?al (nat (grid_cols rq)) (nat (grid_rows rq))")
      case (Inl e)
      with assms r Inr diff_pass_error [OF Inl, of m] show False
        by (simp add: compare_images_def)
    next
      case a: (Inr a)
      with assms r Inr have "build_report rq paths (width fig) (height fig) sh best a =
        Inl (RuntimeError m)" by (simp add: compare_images_def)
      from build_report_error [OF this, of m] show False by simp
    qed
  qed
qed

lemma cmp_run:
  assumes "py_strip (file_key rq) \<noteq> []" "py_strip (node_id rq) \<noteq> []" "0 < scale rq"
    "0 < grid_cols rq" "0 < grid_rows rq"
    and "resolve_figma_token (figma_token rq) (env_figma_token w) = Inr token"
    and "screencap w = Inr raw_bytes"
    and "figma_node_image_url w (file_key rq) (node_id rq) token (scale rq)
           (use_absolute_bounds rq) = Inr u"
    and "download_binary_file w u = Inr fig_bytes"
    and "png_decode w fig_bytes = Inr fig" "png_decode w raw_bytes = Inr emu"
  shows "compare_screen_with_figma w rq =
     (let paths = artifact_paths (output_dir rq) (run_id_of (now w))
      in ([MakeDirs (output_dir rq), CaptureScreenshot (emulatorRaw paths),
           FigmaApiRequest (file_key rq) (node_id rq), DownloadFile u (figmaNode paths)] @
          fst (compare_images w rq paths fig emu),
          snd (compare_images w rq paths fig emu)))"
  using assms by (simp add: compare_screen_with_figma_def Let_def split: prod.splits)

lemma dimension_message_sublist:
  "sublist (str_nat a @ '' < '' @ str_nat b) (dimension_message a b)"
  unfolding sublist_def dimension_message_def
  by (rule exI [of _ "''Scaled emulator image is shorter than Figma image (''"],
      rule exI [of _ "'').''"]) simp

text \<open>
Claim C2. Take a call that passes validation, resolves a token and obtains and decodes
  both images, the capture being at least one pixel wide. With
  \<open>scaled_h = round(capture.height * reference.width / capture.width)\<close>, the call ends
  in a \<open>RuntimeError\<close> exactly when \<open>scaled_h < reference.height\<close>. In that case the
  message is the dimension message, which contains the text \<open>scaled_h < reference.height\<close>
  with both numbers in decimal, and nothing is reported: the result is the error and the
  heatmap is never saved.
\<close>

theorem dimension_error_iff:
  assumes "py_strip (file_key rq) \<noteq> []" and "py_strip (node_id rq) \<noteq> []" and "0 < scale rq"
    and "0 < grid_cols rq" and "0 < grid_rows rq"
    and "resolve_figma_token (figma_token rq) (env_figma_token w) = Inr token"
    and "screencap w = Inr raw_bytes"
    and "figma_node_image_url w (file_key rq) (node_id rq) token (scale rq)
           (use_absolute_bounds rq) = Inr u"
    and "download_binary_file w u = Inr fig_bytes"
    and "png_decode w fig_bytes = Inr fig" and "png_decode w raw_bytes = Inr emu"
    and "0 < width emu"
  shows "\<exists>scaled_h.
     scaled_h = nat (py_round (real (height emu * width fig) / real (width emu))) \<and>
     ((\<exists>msg. snd (compare_screen_with_figma w rq) = Inl (RuntimeError msg)) =
        (scaled_h < height fig)) \<and>
     (scaled_h < height fig \<longrightarrow>
        snd (compare_screen_with_figma w rq) =
          Inl (RuntimeError (dimension_message scaled_h (height fig))) \<and>
        sublist (str_nat scaled_h @ '' < '' @ str_nat (height fig))
          (dimension_message scaled_h (height fig)) \<and>
        SaveImage (heatmapPath (artifact_paths (output_dir rq) (run_id_of (now w))))
          \<notin> set (fst (compare_screen_with_figma w rq)))"
proof -
  let ?sh = "nat (py_round (real (height emu * width fig) / real (width emu)))"
  let ?paths = "artifact_paths (output_dir rq) (run_id_of (now w))"
  have sh: "scaled_height (height emu) (width fig) (width emu) = Inr ?sh"
    using assms(12) by (simp add: scaled_height_def)
  have run: "compare_screen_with_figma w rq =
      ([MakeDirs (output_dir rq), CaptureScreenshot (emulatorRaw ?paths),
        FigmaApiRequest (file_key rq) (node_id rq), DownloadFile u (figmaNode ?paths)] @
       fst (compare_images w rq ?paths fig emu),
       snd (compare_images w rq ?paths fig emu))"
    using cmp_run [OF assms(1-11)] by (simp add: Let_def)
  have short: "compare_images w rq ?paths fig emu =
      ([], Inl (RuntimeError (dimension_message ?sh (height fig))))" if "?sh < height fig"
    by (rule compare_images_short [OF sh that])
  have long: "snd (compare_images w rq ?paths fig emu) \<noteq> Inl (RuntimeError m)"
    if "\<not> ?sh < height fig" for m
    by (rule compare_images_not_short [OF sh that])
  have iff: "(\<exists>msg. snd (compare_screen_with_figma w rq) = Inl (RuntimeError msg)) =
        (?sh < height fig)"
    using short long by (auto simp: run)
  have err: "snd (compare_screen_with_figma w rq) =
          Inl (RuntimeError (dimension_message ?sh (height fig))) \<and>
        SaveImage (heatmapPath ?paths) \<notin> set (fst (compare_screen_with_figma w rq))"
    if "?sh < height fig"
    using short [OF that] by (simp add: run)
  from iff err dimension_message_sublist show ?thesis by blast
qed



theorem dimension_error_iff_witness:
  "snd (compare_screen_with_figma
      \<lparr>env_figma_token = None,
       now = \<lparr>year = 2026, month = 11, day = 3, hour = 9, minute = 30, second = 5,
               microsecond = 0\<rparr>,
       screencap = Inr ''emu'',
       figma_node_image_url = (\<lambda>k n t s b. Inr ''https://example.com/mock.png''),
       download_binary_file = (\<lambda>u. Inr ''fig''),
       png_decode = (\<lambda>b. if b = ''fig''
          then Inr \<lparr>width = 50, height = 300, pixels = (\<lambda>x y. (40, 75, 140))\<rparr>
          else Inr \<lparr>width = 100, height = 120, pixels = (\<lambda>x y. (35, 70, 135))\<rparr>),
       lanczos = (\<lambda>img w h x y. (35, 70, 135))\<rparr>
      \<lparr>file_key = ''file_key'', node_id = ''21:1074'', figma_token = Some ''figd_test'',
       scale = 3, use_absolute_bounds = True, grid_cols = 6, grid_rows = 10,
       output_dir = ''out''\<rparr>) =
   Inl (RuntimeError ''Scaled emulator image is shorter than Figma image (60 < 300).'')"
proof -
  let ?fig = "\<lparr>width = 50, height = 300, pixels = (\<lambda>x y. (40, 75, 140))\<rparr> :: pil_image"
  let ?emu = "\<lparr>width = 100, height = 120, pixels = (\<lambda>x y. (35, 70, 135))\<rparr> :: pil_image"
  let ?w = "\<lparr>env_figma_token = None,
       now = \<lparr>year = 2026, month = 11, day = 3, hour = 9, minute = 30, second = 5,
               microsecond = 0\<rparr>,
       screencap = Inr ''emu'',
       figma_node_image_url = (\<lambda>k n t s b. Inr ''https://example.com/mock.png''),
       download_binary_file = (\<lambda>u. Inr ''fig''),
       png_decode = (\<lambda>b. if b = ''fig'' then Inr ?fig else Inr ?emu),
       lanczos = (\<lambda>img w h x y. (35, 70, 135))\<rparr>"
  let ?rq = "\<lparr>file_key = ''file_key'', node_id = ''21:1074'',
       figma_token = Some ''figd_test'',
       scale = 3, use_absolute_bounds = True, grid_cols = 6, grid_rows = 10,
       output_dir = ''out''\<rparr>"
  have s: "py_strip ''file_key'' = ''file_key''" "py_strip ''21:1074'' = ''21:1074''"
    "py_strip ''figd_test'' = ''figd_test''"
    by (simp_all add: py_strip_def py_isspace_def)
  have tok: "resolve_figma_token (figma_token ?rq) (env_figma_token ?w) = Inr ''figd_test''"
    by (simp add: resolve_figma_token_def py_or_def s)
  have r: "nat (py_round (real (height ?emu * width ?fig) / real (width ?emu))) = 60"
    by (simp add: py_round_def)
  have m: "dimension_message 60 300 =
    ''Scaled emulator image is shorter than Figma image (60 < 300).''"
    by (simp add: dimension_message_def str_nat.simps digit_char_def)
  from dimension_error_iff [of ?rq ?w "''figd_test''" "''emu''"
      "''https://example.com/mock.png''" "''fig''" ?fig ?emu, OF _ _ _ _ _ tok]
  have "snd (compare_screen_with_figma ?w ?rq) =
          Inl (RuntimeError (dimension_message 60 (height ?fig)))"
    unfolding r by (simp add: s)
  then show ?thesis by (simp add: m)
qed



section \<open>The diff pass as a fold; the grid partition\<close>



lemma for_loop_fold:
  assumes "I s"
    and "\<And>x t. x \<in> set xs \<Longrightarrow> I t \<Longrightarrow> body x t = Inr (g x t) \<and> I (g x t)"
  shows "for_loop body xs s = Inr (fold g xs s) \<and> I (fold g xs s)"
  using assms
proof (induction xs arbitrary: s)
  case Nil
  then show ?case by simp
next
  case (Cons x xs)
  have step: "body x s = Inr (g x s)" "I (g x s)"
    using Cons.prems(2) [of x s] Cons.prems(1) by simp_all
  have "for_loop body xs (g x s) = Inr (fold g xs (g x s)) \<and> I (fold g xs (g x s))"
  proof (rule Cons.IH [OF step(2)])
    fix y t
    assume "y \<in> set xs" "I t"
    then show "body y t = Inr (g y t) \<and> I (g y t)" using Cons.prems(2) [of y t] by simp
  qed
  with step(1) show ?case by simp
qed

lemma fold_concat_map: "fold f (concat xss) s = fold (\<lambda>xs. fold f xs) xss s"
  by (induction xss arbitrary: s) simp_all

lemma cell_index_less:
  assumes "0 < gc" "0 < gr"
  shows "cell_index tw th gc gr x y < gc * gr"
proof -
  let ?cx = "min (gc - 1) ((x * gc) div tw)" and ?cy = "min (gr - 1) ((y * gr) div th)"
  have a: "?cy * gc \<le> (gr - 1) * gc" by (rule mult_le_mono1) simp
  have b: "(gr - 1) * gc + gc = gr * gc" using assms(2) by (cases gr) simp_all
  have c: "?cx < gc" using assms(1) by (simp add: min_less_iff_disj)
  from a b c have "?cy * gc + ?cx < gr * gc" by linarith
  then show ?thesis by (simp add: cell_index_def Let_def mult.commute)
qed

lemma diff_px_pure:
  assumes "acc_shape tw th gc gr a" "0 < gc" "0 < gr" "x < tw" "y < th"
    "width fig = tw" "height fig = th" "width emu = tw" "height emu = th"
  shows "diff_px fig emu tw th gc gr y (real y / real th) x a =
           Inr (px_update fig emu tw th gc gr (x, y) a) \<and>
         acc_shape tw th gc gr (px_update fig emu tw th gc gr (x, y) a)"
proof -
  have idx: "cell_index tw th gc gr x y < gc * gr" by (rule cell_index_less [OF assms(2,3)])
  obtain r1 g1 b1 where p1: "pixels fig x y = (r1, g1, b1)" by (cases "pixels fig x y") auto
  obtain r2 g2 b2 where p2: "pixels emu x y = (r2, g2, b2)" by (cases "pixels emu x y") auto
  from assms idx p1 p2 show ?thesis
    by (simp add: diff_px_def px_update_def load_px_def store_px_def acc_shape_def Let_def)
qed

lemma diff_row_pure:
  assumes "acc_shape tw th gc gr a" "0 < gc" "0 < gr" "y < th"
    "width fig = tw" "height fig = th" "width emu = tw" "height emu = th"
  shows "diff_row fig emu tw th gc gr y a =
           Inr (fold (px_update fig emu tw th gc gr) (map (\<lambda>x. (x, y)) [0..<tw]) a) \<and>
         acc_shape tw th gc gr
           (fold (px_update fig emu tw th gc gr) (map (\<lambda>x. (x, y)) [0..<tw]) a)"
proof -
  have "for_loop (diff_px fig emu tw th gc gr y (real y / real th)) [0..<tw] a =
          Inr (fold (\<lambda>x. px_update fig emu tw th gc gr (x, y)) [0..<tw] a) \<and>
        acc_shape tw th gc gr (fold (\<lambda>x. px_update fig emu tw th gc gr (x, y)) [0..<tw] a)"
  proof (rule for_loop_fold [where I = "acc_shape tw th gc gr"])
    show "acc_shape tw th gc gr a" by (rule assms(1))
  next
    fix x t
    assume "x \<in> set [0..<tw]" and t: "acc_shape tw th gc gr t"
    then have "x < tw" by simp
    from diff_px_pure [OF t assms(2,3) this assms(4-8)]
    show "diff_px fig emu tw th gc gr y (real y / real th) x t =
            Inr (px_update fig emu tw th gc gr (x, y) t) \<and>
          acc_shape tw th gc gr (px_update fig emu tw th gc gr (x, y) t)" .
  qed
  moreover from assms(4) have "th \<noteq> 0" by simp
  ultimately show ?thesis by (simp add: diff_row_def fold_map comp_def)
qed

lemma initial_acc_shape: "acc_shape tw th gc gr (initial_acc tw th gc gr)"
  by (simp add: acc_shape_def initial_acc_def)

lemma diff_pass_pure:
  assumes "0 < gc" "0 < gr" "width emu = width fig" "height emu = height fig"
  shows "diff_pass fig emu gc gr =
           Inr (fold (px_update fig emu (width fig) (height fig) gc gr)
                  (all_pixels (width fig) (height fig))
                  (initial_acc (width fig) (height fig) gc gr)) \<and>
         acc_shape (width fig) (height fig) gc gr
           (fold (px_update fig emu (width fig) (height fig) gc gr)
                  (all_pixels (width fig) (height fig))
                  (initial_acc (width fig) (height fig) gc gr))"
proof -
  let ?tw = "width fig" and ?th = "height fig"
  let ?row = "\<lambda>y. fold (px_update fig emu ?tw ?th gc gr) (map (\<lambda>x. (x, y)) [0..<?tw])"
  have "for_loop (diff_row fig emu ?tw ?th gc gr) [0..<?th] (initial_acc ?tw ?th gc gr) =
          Inr (fold ?row [0..<?th] (initial_acc ?tw ?th gc gr)) \<and>
        acc_shape ?tw ?th gc gr (fold ?row [0..<?th] (initial_acc ?tw ?th gc gr))"
  proof (rule for_loop_fold [where I = "acc_shape ?tw ?th gc gr"])
    show "acc_shape ?tw ?th gc gr (initial_acc ?tw ?th gc gr)" by (rule initial_acc_shape)
  next
    fix y t
    assume "y \<in> set [0..<?th]" and t: "acc_shape ?tw ?th gc gr t"
    then have "y < ?th" by simp
    from diff_row_pure [OF t assms(1,2) this refl refl assms(3,4)]
    show "diff_row fig emu ?tw ?th gc gr y t = Inr (?row y t) \<and>
          acc_shape ?tw ?th gc gr (?row y t)" .
  qed
  moreover have "fold ?row [0..<?th] =
      fold (px_update fig emu ?tw ?th gc gr) (all_pixels ?tw ?th)"
    by (rule ext) (simp add: all_pixels_def fold_concat_map fold_map comp_def)
  ultimately show ?thesis by (simp add: diff_pass_def Let_def)
qed

lemma all_pixels_bounds: "(x, y) \<in> set (all_pixels tw th) \<Longrightarrow> x < tw \<and> y < th"
  by (auto simp: all_pixels_def)

lemma length_all_pixels: "length (all_pixels tw th) = tw * th"
  by (simp add: all_pixels_def length_concat comp_def sum_list_triv)

text \<open>An invariant indexed by the list of pixels already visited.\<close>

lemma fold_prefix_invariant:
  assumes "P [] s"
    and "\<And>pre x t. x \<in> set xs \<Longrightarrow> P pre t \<Longrightarrow> P (pre @ [x]) (g x t)"
  shows "P xs (fold g xs s)"
proof -
  have "P (pre @ ys) (fold g ys t)" if "P pre t" "set ys \<subseteq> set xs" for pre ys t
    using that
  proof (induction ys arbitrary: pre t)
    case Nil
    then show ?case by simp
  next
    case (Cons y ys)
    from Cons.prems have "P (pre @ [y]) (g y t)" by (auto intro: assms(2))
    from Cons.IH [OF this] Cons.prems(2) show ?case by simp
  qed
  from this [of "[]" s xs] assms(1) show ?thesis by simp
qed



lemma px_cell_pixels:
  "cell_pixels (px_update fig emu tw th gc gr (x, y) a) =
     (cell_pixels a)[cell_index tw th gc gr x y :=
        cell_pixels a ! cell_index tw th gc gr x y + 1]"
  by (simp add: px_update_def Let_def split: prod.splits)

lemma set_all_pixels: "set (all_pixels tw th) = {(x, y). x < tw \<and> y < th}"
  by (auto simp: all_pixels_def)

lemma all_pixels_Suc:
  "all_pixels tw (Suc th) = all_pixels tw th @ map (\<lambda>x. (x, th)) [0..<tw]"
  by (simp add: all_pixels_def)

lemma distinct_all_pixels: "distinct (all_pixels tw th)"
proof (induction th)
  case 0
  show ?case by (simp add: all_pixels_def)
next
  case (Suc th)
  have "distinct (map (\<lambda>x. (x, th)) [0..<tw])" by (simp add: distinct_map inj_on_def)
  moreover have "set (all_pixels tw th) \<inter> set (map (\<lambda>x. (x, th)) [0..<tw]) = {}"
    by (auto simp: set_all_pixels)
  ultimately show ?case using Suc by (simp add: all_pixels_Suc)
qed

lemma sum_list_indicator:
  "(\<Sum>i\<leftarrow>[0..<n]. if k = i then 1 else 0) = (if k < n then 1 else (0::nat))"
  by (induction n) auto

lemma cell_counts_invariant:
  fixes tw th gc gr :: nat
  assumes "0 < gc" "0 < gr"
  defines "idx \<equiv> \<lambda>p. case p of (x, y) \<Rightarrow> cell_index tw th gc gr x y"
  shows "length (cell_pixels (fold (px_update fig emu tw th gc gr) ps
                                 (initial_acc tw th gc gr))) = gc * gr \<and>
         (\<forall>i<gc * gr. cell_pixels (fold (px_update fig emu tw th gc gr) ps
                                 (initial_acc tw th gc gr)) ! i =
                       length (filter (\<lambda>p. idx p = i) ps))"
proof (rule fold_prefix_invariant
    [where P = "\<lambda>pre a. length (cell_pixels a) = gc * gr \<and>
                  (\<forall>i<gc * gr. cell_pixels a ! i = length (filter (\<lambda>p. idx p = i) pre))"])
  show "length (cell_pixels (initial_acc tw th gc gr)) = gc * gr \<and>
    (\<forall>i<gc * gr. cell_pixels (initial_acc tw th gc gr) ! i =
       length (filter (\<lambda>p. idx p = i) []))"
    by (simp add: initial_acc_def)
next
  fix pre :: "(nat \<times> nat) list" and p :: "nat \<times> nat" and a :: diff_acc
  assume inv: "length (cell_pixels a) = gc * gr \<and>
    (\<forall>i<gc * gr. cell_pixels a ! i = length (filter (\<lambda>p. idx p = i) pre))"
  obtain x y where p: "p = (x, y)" by (cases p)
  have lt: "cell_index tw th gc gr x y < gc * gr" by (rule cell_index_less [OF assms(1,2)])
  show "length (cell_pixels (px_update fig emu tw th gc gr p a)) = gc * gr \<and>
    (\<forall>i<gc * gr. cell_pixels (px_update fig emu tw th gc gr p a) ! i =
       length (filter (\<lambda>p. idx p = i) (pre @ [p])))"
    using inv lt by (auto simp: p px_cell_pixels nth_list_update idx_def)
qed

lemma sum_counts_filter:
  assumes "\<And>p. p \<in> set ps \<Longrightarrow> f p < n"
  shows "(\<Sum>i\<leftarrow>[0..<n]. length (filter (\<lambda>p. f p = i) ps)) = length ps"
  using assms
proof (induction ps)
  case Nil
  then show ?case by simp
next
  case (Cons p ps)
  have "(\<Sum>i\<leftarrow>[0..<n]. length (filter (\<lambda>q. f q = i) (p # ps))) =
        (\<Sum>i\<leftarrow>[0..<n]. (if f p = i then 1 else 0) + length (filter (\<lambda>q. f q = i) ps))"
    by (rule arg_cong [where f = sum_list]) (rule map_cong, simp_all)
  also have "\<dots> = (\<Sum>i\<leftarrow>[0..<n]. if f p = i then 1 else 0) +
                   (\<Sum>i\<leftarrow>[0..<n]. length (filter (\<lambda>q. f q = i) ps))"
    by (simp add: sum_list_addf)
  also have "(\<Sum>i\<leftarrow>[0..<n]. if f p = i then 1 else 0) = (1::nat)"
    using Cons.prems [of p] by (simp add: sum_list_indicator)
  finally show ?case using Cons by simp
qed



lemma cell_decompose:
  fixes gc :: nat
  assumes "cx < gc" "c < gc"
  shows "(cy * gc + cx = r * gc + c) = (cy = r \<and> cx = c)"
proof
  assume e: "cy * gc + cx = r * gc + c"
  then have "(cy * gc + cx) div gc = (r * gc + c) div gc"
    "(cy * gc + cx) mod gc = (r * gc + c) mod gc" by simp_all
  with assms show "cy = r \<and> cx = c" by simp
qed simp

text \<open>
Claim C4. For a reference and an aligned capture of the same size and a positive grid,
  the pass returns, the list of cell pixel counts has \<open>grid_cols * grid_rows\<close> entries,
  the entry of the cell \<open>(row, col)\<close> is the number of pixels \<open>(x, y)\<close> of the reference with
  \<open>col = min(grid_cols - 1, x * grid_cols // width)\<close> and
  \<open>row = min(grid_rows - 1, y * grid_rows // height)\<close>, and the counts add up to
  \<open>width * height\<close>: every pixel is counted once, in the one cell its indices name.
\<close>

theorem grid_cells_partition:
  assumes "0 < gc" and "0 < gr" and "width emu = width fig" and "height emu = height fig"
  shows "\<exists>a. diff_pass fig emu gc gr = Inr a \<and> length (cell_pixels a) = gc * gr \<and>
     (\<forall>r<gr. \<forall>c<gc. cell_pixels a ! (r * gc + c) =
        card {(x, y). x < width fig \<and> y < height fig \<and>
                      min (gc - 1) ((x * gc) div width fig) = c \<and>
                      min (gr - 1) ((y * gr) div height fig) = r}) \<and>
     sum_list (cell_pixels a) = width fig * height fig"
proof -
  let ?tw = "width fig" and ?th = "height fig"
  let ?ps = "all_pixels ?tw ?th"
  let ?idx = "\<lambda>p. case p of (x, y) \<Rightarrow> cell_index ?tw ?th gc gr x y"
  define a where "a = fold (px_update fig emu ?tw ?th gc gr) ?ps (initial_acc ?tw ?th gc gr)"
  have run: "diff_pass fig emu gc gr = Inr a"
    using diff_pass_pure [OF assms] by (simp add: a_def)
  have len: "length (cell_pixels a) = gc * gr"
    and cnt: "\<forall>i<gc * gr. cell_pixels a ! i = length (filter (\<lambda>p. ?idx p = i) ?ps)"
    using cell_counts_invariant [OF assms(1,2), of fig emu ?tw ?th ?ps] by (simp_all add: a_def)
  have cell: "cell_pixels a ! (r * gc + c) =
        card {(x, y). x < ?tw \<and> y < ?th \<and> min (gc - 1) ((x * gc) div ?tw) = c \<and>
                      min (gr - 1) ((y * gr) div ?th) = r}"
    if "r < gr" "c < gc" for r c
  proof -
    have a: "r * gc \<le> (gr - 1) * gc" using that(1) by (intro mult_le_mono1) simp
    have b: "(gr - 1) * gc + gc = gr * gc" using assms(2) by (cases gr) simp_all
    from a b that(2) have "r * gc + c < gr * gc" by linarith
    then have "r * gc + c < gc * gr" by (simp only: mult.commute)
    with cnt have "cell_pixels a ! (r * gc + c) =
      length (filter (\<lambda>p. ?idx p = r * gc + c) ?ps)" by simp
    also have "\<dots> = card ({p. ?idx p = r * gc + c} \<inter> set ?ps)"
      by (rule distinct_length_filter) (rule distinct_all_pixels)
    also have "{p. ?idx p = r * gc + c} \<inter> set ?ps =
        {(x, y). x < ?tw \<and> y < ?th \<and> min (gc - 1) ((x * gc) div ?tw) = c \<and>
                      min (gr - 1) ((y * gr) div ?th) = r}"
    proof -
      have cx: "min (gc - 1) ((x * gc) div ?tw) < gc" for x
        using assms(1) by (simp add: min_less_iff_disj)
      show ?thesis
        using cell_decompose [OF cx that(2)]
        by (auto simp: set_all_pixels cell_index_def Let_def)
    qed
    finally show ?thesis .
  qed
  have "sum_list (cell_pixels a) = (\<Sum>i\<leftarrow>[0..<gc * gr]. cell_pixels a ! i)"
    using len by (metis map_nth)
  also have "\<dots> = (\<Sum>i\<leftarrow>[0..<gc * gr]. length (filter (\<lambda>p. ?idx p = i) ?ps))"
    using cnt by (intro arg_cong [where f = sum_list] map_cong) simp_all
  also have "\<dots> = length ?ps"
    by (rule sum_counts_filter) (auto intro: cell_index_less [OF assms(1,2)])
  finally have total: "sum_list (cell_pixels a) = ?tw * ?th" by (simp add: length_all_pixels)
  from run len cell total show ?thesis by blast
qed

theorem grid_cells_partition_witness:
  "\<exists>a. diff_pass \<lparr>width = 50, height = 100, pixels = (\<lambda>x y. (40, 75, 140))\<rparr>
          \<lparr>width = 50, height = 100, pixels = (\<lambda>x y. (35, 70, 135))\<rparr> 6 10 = Inr a \<and>
       length (cell_pixels a) = 60 \<and> sum_list (cell_pixels a) = 5000"
  using grid_cells_partition [of 6 10
      "\<lparr>width = 50, height = 100, pixels = (\<lambda>x y. (35, 70, 135))\<rparr>"
      "\<lparr>width = 50, height = 100, pixels = (\<lambda>x y. (40, 75, 140))\<rparr>"]
  by auto



section \<open>Zone assignment\<close>



lemma px_zones:
  "zones (px_update fig emu tw th gc gr (x, y) a) =
     zone_add (real y / real th) (d_avg_of (pixels fig x y) (pixels emu x y)) (zones a)"
  by (simp add: px_update_def Let_def d_avg_of_def abs_delta_def split: prod.splits)

lemma zone_add_keeps:
  "length (zone_add yn d zs) = length zs \<and> map y0 (zone_add yn d zs) = map y0 zs \<and>
   map y1 (zone_add yn d zs) = map y1 zs \<and> map zone_name (zone_add yn d zs) = map zone_name zs"
  by (induction zs) simp_all

lemma zone_add_Cons:
  "zone_add yn d (z # zs) =
     (if in_band z yn
      then z\<lparr>zone_sum := zone_sum z + d, zone_count := zone_count z + 1\<rparr> # zs
      else z # zone_add yn d zs)"
  by (simp add: in_band_def)

lemma zone_add_count_nth:
  "i < length zs \<Longrightarrow>
   zone_count (zone_add yn d zs ! i) =
     zone_count (zs ! i) +
     (if in_band (zs ! i) yn \<and> (\<forall>j<i. \<not> in_band (zs ! j) yn) then 1 else 0)"
proof (induction zs arbitrary: i)
  case Nil
  then show ?case by simp
next
  case (Cons z zs)
  show ?case
  proof (cases i)
    case 0
    then show ?thesis by (simp add: zone_add_Cons del: zone_add.simps)
  next
    case (Suc k)
    with Cons.prems have k: "k < length zs" by simp
    show ?thesis
    proof (cases "in_band z yn")
      case True
      then have "zone_add yn d (z # zs) ! i = zs ! k"
        using Suc by (simp add: zone_add_Cons del: zone_add.simps)
      moreover have "\<not> (\<forall>j<i. \<not> in_band ((z # zs) ! j) yn)" using True Suc by auto
      ultimately show ?thesis using Suc by simp
    next
      case False
      then have "zone_add yn d (z # zs) ! i = zone_add yn d zs ! k"
        using Suc by (simp add: zone_add_Cons del: zone_add.simps)
      moreover have "(\<forall>j<i. \<not> in_band ((z # zs) ! j) yn) = (\<forall>j<k. \<not> in_band (zs ! j) yn)"
        using False Suc by (auto simp: less_Suc_eq_0_disj)
      ultimately show ?thesis using Cons.IH [OF k] Suc by simp
    qed
  qed
qed

lemma less_5_cases: "i < 5 \<Longrightarrow> i = 0 \<or> i = 1 \<or> i = 2 \<or> i = 3 \<or> i = (4::nat)"
  by arith

lemma initial_band_unique:
  assumes "0 \<le> yn" "yn < 1"
  shows "length (filter (\<lambda>z. in_band z yn) initial_zones) = 1"
  using assms by (auto simp: initial_zones_def in_band_def)

lemma initial_band_first:
  assumes "i < 5" "in_band (initial_zones ! i) yn" "j < i"
  shows "\<not> in_band (initial_zones ! j) yn"
proof -
  from assms(1,3) have "j < 5" by simp
  from less_5_cases [OF assms(1)] less_5_cases [OF this] assms(2,3)
  show ?thesis by (auto simp: initial_zones_def in_band_def)
qed

lemma initial_band_exists:
  assumes "0 \<le> yn" "yn < 1"
  shows "\<exists>i<5. in_band (initial_zones ! i) yn"
proof -
  consider "yn < 24 / 100" | "24 / 100 \<le> yn" "yn < 47 / 100" | "47 / 100 \<le> yn" "yn < 72 / 100"
    | "72 / 100 \<le> yn" "yn < 87 / 100" | "87 / 100 \<le> yn" by linarith
  then show ?thesis
  proof cases
    case 1
    with assms have "in_band (initial_zones ! 0) yn" by (simp add: initial_zones_def in_band_def)
    then show ?thesis by (intro exI [of _ 0]) simp
  next
    case 2
    then have "in_band (initial_zones ! 1) yn" by (simp add: initial_zones_def in_band_def)
    then show ?thesis by (intro exI [of _ 1]) simp
  next
    case 3
    then have "in_band (initial_zones ! 2) yn" by (simp add: initial_zones_def in_band_def)
    then show ?thesis by (intro exI [of _ 2]) simp
  next
    case 4
    then have "in_band (initial_zones ! 3) yn" by (simp add: initial_zones_def in_band_def)
    then show ?thesis by (intro exI [of _ 3]) simp
  next
    case 5
    with assms have "in_band (initial_zones ! 4) yn" by (simp add: initial_zones_def in_band_def)
    then show ?thesis by (intro exI [of _ 4]) simp
  qed
qed

lemma length_initial_zones [simp]: "length initial_zones = 5"
  by (simp add: initial_zones_def)



lemma zone_add_sum:
  "sum_list (map zone_count (zone_add yn d zs)) =
     sum_list (map zone_count zs) + (if \<exists>z\<in>set zs. in_band z yn then 1 else 0)"
  by (induction zs) (auto simp: zone_add_Cons simp del: zone_add.simps(2))

lemma same_bands_nth:
  assumes "map y0 zs = map y0 initial_zones" "map y1 zs = map y1 initial_zones" "i < 5"
  shows "in_band (zs ! i) yn = in_band (initial_zones ! i) yn"
proof -
  from assms(1) have len: "length zs = 5" using length_map [of y0 zs] by simp
  with assms(3) have "y0 (zs ! i) = map y0 zs ! i" "y1 (zs ! i) = map y1 zs ! i" by simp_all
  with assms show ?thesis by (simp add: in_band_def)
qed

lemma zones_invariant:
  fixes th :: nat
  defines "hit \<equiv> \<lambda>i p. case p of (x, y) \<Rightarrow> in_band (initial_zones ! i) (real y / real th)"
  assumes ps: "\<And>x y. (x, y) \<in> set ps \<Longrightarrow> y < th"
  shows "(\<lambda>pre a. map y0 (zones a) = map y0 initial_zones \<and>
             map y1 (zones a) = map y1 initial_zones \<and>
             map zone_name (zones a) = map zone_name initial_zones \<and>
             (\<forall>i<5. zone_count (zones a ! i) = length (filter (hit i) pre)) \<and>
             sum_list (map zone_count (zones a)) = length pre)
         ps (fold (px_update fig emu tw th gc gr) ps (initial_acc tw th gc gr))"
proof (rule fold_prefix_invariant)
  show "map y0 (zones (initial_acc tw th gc gr)) = map y0 initial_zones \<and>
        map y1 (zones (initial_acc tw th gc gr)) = map y1 initial_zones \<and>
        map zone_name (zones (initial_acc tw th gc gr)) = map zone_name initial_zones \<and>
        (\<forall>i<5. zone_count (zones (initial_acc tw th gc gr) ! i) = length (filter (hit i) [])) \<and>
        sum_list (map zone_count (zones (initial_acc tw th gc gr))) = length []"
  proof -
    have "zone_count (initial_zones ! i) = 0" if "i < 5" for i
      using less_5_cases [OF that] by (auto simp: initial_zones_def)
    moreover have "sum_list (map zone_count initial_zones) = 0" by (simp add: initial_zones_def)
    ultimately show ?thesis by (simp add: initial_acc_def)
  qed
next
  fix pre :: "(nat \<times> nat) list" and p :: "nat \<times> nat" and a :: diff_acc
  assume mem: "p \<in> set ps"
    and inv: "map y0 (zones a) = map y0 initial_zones \<and>
             map y1 (zones a) = map y1 initial_zones \<and>
             map zone_name (zones a) = map zone_name initial_zones \<and>
             (\<forall>i<5. zone_count (zones a ! i) = length (filter (hit i) pre)) \<and>
             sum_list (map zone_count (zones a)) = length pre"
  obtain x y where p: "p = (x, y)" by (cases p)
  with mem ps have y: "y < th" by blast
  let ?yn = "real y / real th"
  let ?d = "d_avg_of (pixels fig x y) (pixels emu x y)"
  let ?zs = "zones a" and ?zs' = "zone_add ?yn ?d (zones a)"
  from y have yn: "0 \<le> ?yn" "?yn < 1" by simp_all
  have z': "zones (px_update fig emu tw th gc gr p a) = ?zs'" by (simp add: p px_zones)
  from inv have len: "length ?zs = 5" using length_map [of y0 ?zs] by simp
  have band: "in_band (?zs ! i) ?yn = in_band (initial_zones ! i) ?yn" if "i < 5" for i
    using inv that by (intro same_bands_nth) simp_all
  have cnt: "zone_count (?zs' ! i) = length (filter (hit i) (pre @ [p]))" if "i < 5" for i
  proof -
    have first: "(in_band (?zs ! i) ?yn \<and> (\<forall>j<i. \<not> in_band (?zs ! j) ?yn)) =
          in_band (initial_zones ! i) ?yn"
    proof (cases "in_band (initial_zones ! i) ?yn")
      case True
      have "\<not> in_band (?zs ! j) ?yn" if "j < i" for j
      proof -
        from that \<open>i < 5\<close> have "j < 5" by simp
        from band [OF this] initial_band_first [OF \<open>i < 5\<close> True that] show ?thesis by simp
      qed
      with True band [OF \<open>i < 5\<close>] show ?thesis by simp
    next
      case False
      with band [OF that] show ?thesis by simp
    qed
    have "zone_count (?zs' ! i) =
        zone_count (?zs ! i) + (if in_band (initial_zones ! i) ?yn then 1 else 0)"
      using zone_add_count_nth [of i ?zs ?yn ?d] len that first by simp
    moreover have "zone_count (?zs ! i) = length (filter (hit i) pre)" using inv that by simp
    ultimately show ?thesis by (simp add: hit_def p)
  qed
  have "\<exists>z\<in>set ?zs. in_band z ?yn"
  proof -
    from initial_band_exists [OF yn] obtain i where i: "i < 5" "in_band (initial_zones ! i) ?yn"
      by blast
    with band [OF i(1)] have "in_band (?zs ! i) ?yn" by simp
    moreover from i(1) len have "?zs ! i \<in> set ?zs" by simp
    ultimately show ?thesis by blast
  qed
  then have total: "sum_list (map zone_count ?zs') = length (pre @ [p])"
    using inv by (simp add: zone_add_sum)
  from inv zone_add_keeps [of ?yn ?d ?zs] cnt total
  show "map y0 (zones (px_update fig emu tw th gc gr p a)) = map y0 initial_zones \<and>
        map y1 (zones (px_update fig emu tw th gc gr p a)) = map y1 initial_zones \<and>
        map zone_name (zones (px_update fig emu tw th gc gr p a)) = map zone_name initial_zones \<and>
        (\<forall>i<5. zone_count (zones (px_update fig emu tw th gc gr p a) ! i) =
           length (filter (hit i) (pre @ [p]))) \<and>
        sum_list (map zone_count (zones (px_update fig emu tw th gc gr p a))) =
           length (pre @ [p])"
    unfolding z' by simp
qed



text \<open>
Claim C3. Zone assignment is total and exclusive. For every row \<open>y\<close> of a reference of
  height \<open>h\<close>, exactly one of the five bands holds \<open>y / h\<close>. For images of the same size and a
  positive grid the pass returns with the five zones in their order, the pixel count of
  each zone is the number of pixels whose row falls into its band (the first band that
  holds the row is the only one), and the five counts add up to \<open>width * height\<close>.
\<close>

theorem zone_assignment_total_exclusive:
  assumes "0 < gc" and "0 < gr" and "width emu = width fig" and "height emu = height fig"
  shows "(\<forall>y<height fig.
            length (filter (\<lambda>z. in_band z (real y / real (height fig))) initial_zones) = 1) \<and>
         (\<exists>a. diff_pass fig emu gc gr = Inr a \<and>
            map zone_name (zones a) =
              [''header'', ''cards'', ''gap_analysis'', ''strategy_band'', ''bottom_nav''] \<and>
            (\<forall>i<5. zone_count (zones a ! i) =
               card {(x, y). x < width fig \<and> y < height fig \<and>
                             in_band (initial_zones ! i) (real y / real (height fig))}) \<and>
            sum_list (map zone_count (zones a)) = width fig * height fig)"
proof -
  let ?tw = "width fig" and ?th = "height fig"
  let ?ps = "all_pixels ?tw ?th"
  let ?hit = "\<lambda>i p. case p of (x, y) \<Rightarrow> in_band (initial_zones ! i) (real y / real ?th)"
  define a where "a = fold (px_update fig emu ?tw ?th gc gr) ?ps (initial_acc ?tw ?th gc gr)"
  have one: "length (filter (\<lambda>z. in_band z (real y / real ?th)) initial_zones) = 1"
    if "y < ?th" for y
    using that by (intro initial_band_unique) simp_all
  have run: "diff_pass fig emu gc gr = Inr a"
    using diff_pass_pure [OF assms] by (simp add: a_def)
  have inv: "map zone_name (zones a) = map zone_name initial_zones"
    "\<forall>i<5. zone_count (zones a ! i) = length (filter (?hit i) ?ps)"
    "sum_list (map zone_count (zones a)) = length ?ps"
    using zones_invariant [of ?ps ?th fig emu ?tw gc gr] all_pixels_bounds [of _ _ ?tw ?th]
    by (simp_all add: a_def)
  have names: "map zone_name (zones a) =
      [''header'', ''cards'', ''gap_analysis'', ''strategy_band'', ''bottom_nav'']"
    using inv(1) by (simp add: initial_zones_def)
  have cnt: "zone_count (zones a ! i) =
      card {(x, y). x < ?tw \<and> y < ?th \<and> in_band (initial_zones ! i) (real y / real ?th)}"
    if "i < 5" for i
  proof -
    from inv(2) that have "zone_count (zones a ! i) = length (filter (?hit i) ?ps)" by simp
    also have "\<dots> = card ({p. ?hit i p} \<inter> set ?ps)"
      by (rule distinct_length_filter) (rule distinct_all_pixels)
    also have "{p. ?hit i p} \<inter> set ?ps =
        {(x, y). x < ?tw \<and> y < ?th \<and> in_band (initial_zones ! i) (real y / real ?th)}"
      by (auto simp: set_all_pixels)
    finally show ?thesis .
  qed
  from one run names cnt inv(3) show ?thesis by (auto simp: length_all_pixels)
qed

theorem zone_assignment_total_exclusive_witness:
  "length (filter (\<lambda>z. in_band z (real (24::nat) / real (100::nat))) initial_zones) = 1 \<and>
   (\<exists>a. diff_pass \<lparr>width = 50, height = 100, pixels = (\<lambda>x y. (40, 75, 140))\<rparr>
          \<lparr>width = 50, height = 100, pixels = (\<lambda>x y. (35, 70, 135))\<rparr> 6 10 = Inr a \<and>
        sum_list (map zone_count (zones a)) = 5000)"
proof -
  let ?fig = "\<lparr>width = 50, height = 100, pixels = (\<lambda>x y. (40, 75, 140))\<rparr> :: pil_image"
  let ?emu = "\<lparr>width = 50, height = 100, pixels = (\<lambda>x y. (35, 70, 135))\<rparr> :: pil_image"
  have t: "(\<forall>y<height ?fig.
            length (filter (\<lambda>z. in_band z (real y / real (height ?fig))) initial_zones) = 1) \<and>
         (\<exists>a. diff_pass ?fig ?emu 6 10 = Inr a \<and>
            map zone_name (zones a) =
              [''header'', ''cards'', ''gap_analysis'', ''strategy_band'', ''bottom_nav''] \<and>
            (\<forall>i<5. zone_count (zones a ! i) =
               card {(x, y). x < width ?fig \<and> y < height ?fig \<and>
                             in_band (initial_zones ! i) (real y / real (height ?fig))}) \<and>
            sum_list (map zone_count (zones a)) = width ?fig * height ?fig)"
    by (rule zone_assignment_total_exclusive) simp_all
  from t have "\<forall>y<100. length (filter (\<lambda>z. in_band z (real y / real (100::nat))) initial_zones) = 1"
    by simp
  then have a: "length (filter (\<lambda>z. in_band z (real (24::nat) / real (100::nat))) initial_zones) = 1"
    by (rule allE [of _ 24]) simp
  from t obtain acc where "diff_pass ?fig ?emu 6 10 = Inr acc"
    "sum_list (map zone_count (zones acc)) = 5000" by auto
  with a show ?thesis by blast
qed



section \<open>The report: grid cells and the worst twelve\<close>



lemma for_loop_collect:
  assumes "\<And>x acc. x \<in> set xs \<Longrightarrow> body x acc = Inr (acc @ g x)"
  shows "for_loop body xs acc = Inr (acc @ concat (map g xs))"
  using assms by (induction xs arbitrary: acc) simp_all

lemma grid_index_less:
  fixes gc gr :: nat
  assumes "r < gr" "c < gc"
  shows "r * gc + c < gc * gr"
proof -
  have a: "r * gc \<le> (gr - 1) * gc" using assms(1) by (intro mult_le_mono1) simp
  have b: "(gr - 1) * gc + gc = gr * gc" using assms(1) by (cases gr) simp_all
  from a b assms(2) have "r * gc + c < gr * gc" by linarith
  then show ?thesis by (simp only: mult.commute)
qed

lemma grid_cell_step_pure:
  assumes "length (cell_sums a) = gc * gr" "length (cell_pixels a) = gc * gr" "r < gr" "c < gc"
  shows "grid_cell_step a gc r c cells = Inr (cells @ [grid_cell_of a gc r c])"
  using assms grid_index_less [OF assms(3,4)]
  by (simp add: grid_cell_step_def grid_cell_of_def py_index_def Let_def)

lemma build_grid_cells_pure:
  assumes "length (cell_sums a) = gc * gr" "length (cell_pixels a) = gc * gr"
  shows "build_grid_cells a gc gr =
     Inr (concat (map (\<lambda>r. map (grid_cell_of a gc r) [0..<gc]) [0..<gr]))"
proof -
  have inner: "for_loop (grid_cell_step a gc r) [0..<gc] acc =
      Inr (acc @ map (grid_cell_of a gc r) [0..<gc])" if "r < gr" for r acc
  proof -
    have "for_loop (grid_cell_step a gc r) [0..<gc] acc =
      Inr (acc @ concat (map (\<lambda>c. [grid_cell_of a gc r c]) [0..<gc]))"
      by (rule for_loop_collect) (simp add: grid_cell_step_pure [OF assms that])
    then show ?thesis by simp
  qed
  have "for_loop (\<lambda>r. for_loop (grid_cell_step a gc r) [0..<gc]) [0..<gr] [] =
      Inr ([] @ concat (map (\<lambda>r. map (grid_cell_of a gc r) [0..<gc]) [0..<gr]))"
    by (rule for_loop_collect) (simp add: inner)
  then show ?thesis by (simp add: build_grid_cells_def)
qed

lemma length_grid_cells:
  "length (concat (map (\<lambda>r. map (f r) [0..<gc]) [0..<gr])) = gc * gr"
  by (simp add: length_concat comp_def sum_list_triv)

lemma py_round_of_int [simp]: "py_round (of_int k) = k"
  by (simp add: py_round_def)

lemma py_round_to_0 [simp]: "py_round_to n 0 = 0"
  using py_round_of_int [of 0] by (simp add: py_round_to_def del: py_round_of_int)

lemma py_round_to_of_int [simp]: "py_round_to n (of_int k) = of_int k"
proof -
  have "of_int k * (10::real) ^ n = of_int (k * 10 ^ n)" by simp
  then have "py_round (of_int k * 10 ^ n) = k * 10 ^ n" by (simp only: py_round_of_int)
  then show ?thesis by (simp add: py_round_to_def)
qed

lemma py_round_close: "\<bar>of_int (py_round x) - x\<bar> \<le> 1 / 2"
proof -
  have "of_int \<lfloor>x\<rfloor> \<le> x" "x < of_int \<lfloor>x\<rfloor> + 1" by linarith+
  then show ?thesis by (auto simp: py_round_def Let_def)
qed

lemma py_round_to_close: "\<bar>py_round_to n x - x\<bar> \<le> 1 / (2 * 10 ^ n)"
proof -
  have "\<bar>py_round_to n x - x\<bar> = \<bar>of_int (py_round (x * 10 ^ n)) - x * 10 ^ n\<bar> / 10 ^ n"
    by (simp add: py_round_to_def field_simps abs_divide)
  also have "\<dots> \<le> (1 / 2) / 10 ^ n"
    by (intro divide_right_mono py_round_close) simp
  finally show ?thesis by simp
qed

lemma sorted_reverse_desc:
  "sorted_wrt (\<lambda>c d. key d \<le> key c) (py_sorted_reverse key xs)"
proof -
  have "sorted (map key (sort_key key (rev xs)))" by simp
  then have "sorted_wrt (\<lambda>c d. key c \<le> key d) (sort_key key (rev xs))"
    by (simp add: sorted_map)
  then show ?thesis by (simp add: py_sorted_reverse_def sorted_wrt_rev)
qed

lemma sorted_wrt_take_desc: "sorted_wrt P xs \<Longrightarrow> sorted_wrt P (take n xs)"
  by (metis append_take_drop_id sorted_wrt_append)

lemma worst_grid_cells_props:
  "sorted_wrt (\<lambda>c d. avgDiff d \<le> avgDiff c) (worst_grid_cells cells) \<and>
   length (worst_grid_cells cells) = min 12 (length cells) \<and>
   set (worst_grid_cells cells) \<subseteq> set cells"
proof -
  have "set (take 12 (py_sorted_reverse avgDiff cells)) \<subseteq> set (py_sorted_reverse avgDiff cells)"
    by (rule set_take_subset)
  moreover have "set (py_sorted_reverse avgDiff cells) = set cells"
    by (simp add: py_sorted_reverse_def)
  moreover have "length (py_sorted_reverse avgDiff cells) = length cells"
    by (simp add: py_sorted_reverse_def)
  ultimately show ?thesis
    by (simp add: worst_grid_cells_def sorted_wrt_take_desc sorted_reverse_desc min.commute)
qed



lemma offset_search_returns:
  assumes "width fig \<le> width emu" "height fig \<le> height emu"
  shows "\<exists>best_y s. offset_search fig emu (height emu - height fig) = Inr (best_y, Finite s) \<and>
           best_y \<le> height emu - height fig"
proof -
  let ?n = "height emu - height fig"
  define f where "f = (\<lambda>o'. case coarse_mae fig emu o' 2 of Inr s \<Rightarrow> s | Inl e \<Rightarrow> 0)"
  have f: "coarse_mae fig emu o' 2 = Inr (f o')" if "o' \<le> ?n" for o'
  proof -
    from that assms(2) have "height fig + o' \<le> height emu" by simp
    from coarse_mae_returns [OF assms(1) this] show ?thesis by (auto simp: f_def)
  qed
  from search_loop [of ?n fig emu f, OF f] show ?thesis by blast
qed

lemma build_report_cells:
  assumes "build_report rq paths tw th sh best a = Inr rep"
  shows "\<exists>cells. build_grid_cells a (nat (grid_cols rq)) (nat (grid_rows rq)) = Inr cells \<and>
           worstGridCells rep = worst_grid_cells cells"
  using assms by (auto simp: build_report_def split: sum.splits)

lemma build_report_returns:
  assumes "acc_shape tw th (nat (grid_cols rq)) (nat (grid_rows rq)) a" "0 < tw" "0 < th"
  shows "\<exists>rep. build_report rq paths tw th sh best a = Inr rep"
proof -
  from assms(1) have "length (cell_sums a) = nat (grid_cols rq) * nat (grid_rows rq)"
    "length (cell_pixels a) = nat (grid_cols rq) * nat (grid_rows rq)"
    by (simp_all add: acc_shape_def)
  note cells = build_grid_cells_pure [OF this]
  from assms(2,3) show ?thesis
    by (simp add: build_report_def global_metrics_def px_diff_pct_def cells Let_def)
qed

lemma aligned_size:
  "width (crop (resize w emu tw sh) 0 b tw (b + th)) = tw \<and>
   height (crop (resize w emu tw sh) 0 b tw (b + th)) = th"
  by (simp add: crop_def resize_def)

lemma compare_images_returns:
  assumes "0 < grid_cols rq" "0 < grid_rows rq" "0 < width fig" "0 < height fig"
    and "scaled_height (height emu) (width fig) (width emu) = Inr sh" "height fig \<le> sh"
  shows "\<exists>ev rep. compare_images w rq paths fig emu = (ev, Inr rep)"
proof -
  let ?sc = "resize w emu (width fig) sh"
  have "width fig \<le> width ?sc" "height fig \<le> height ?sc"
    using assms(6) by (simp_all add: resize_def)
  from offset_search_returns [OF this] obtain best where
    s: "offset_search fig ?sc (sh - height fig) = Inr best" by (auto simp: resize_def)
  let ?al = "crop ?sc 0 (fst best) (width fig) (fst best + height fig)"
  have size: "width ?al = width fig" "height ?al = height fig" using aligned_size by simp_all
  from assms(1,2) have g: "0 < nat (grid_cols rq)" "0 < nat (grid_rows rq)" by simp_all
  from diff_pass_pure [OF g size] obtain a where
    d: "diff_pass fig ?al (nat (grid_cols rq)) (nat (grid_rows rq)) = Inr a"
    and sh: "acc_shape (width fig) (height fig) (nat (grid_cols rq)) (nat (grid_rows rq)) a"
    by blast
  from build_report_returns [OF sh assms(3,4)] obtain rep where
    "build_report rq paths (width fig) (height fig) sh best a = Inr rep" by blast
  with assms(5,6) s d show ?thesis by (simp add: compare_images_def Let_def)
qed

lemma grid_cells_rows_cols:
  "c \<in> set (concat (map (\<lambda>r. map (grid_cell_of a gc r) [0..<gc]) [0..<gr])) \<Longrightarrow>
   row c < gr \<and> col c < gc"
  by (auto simp: grid_cell_of_def Let_def)

text \<open>A run whose collaborators all succeed, on images of positive size with a capture
  that covers the reference, returns a report.\<close>

lemma compare_screen_returns:
  assumes "py_strip (file_key rq) \<noteq> []" "py_strip (node_id rq) \<noteq> []" "0 < scale rq"
    "0 < grid_cols rq" "0 < grid_rows rq"
    and "resolve_figma_token (figma_token rq) (env_figma_token w) = Inr token"
    and "screencap w = Inr raw_bytes"
    and "figma_node_image_url w (file_key rq) (node_id rq) token (scale rq)
           (use_absolute_bounds rq) = Inr u"
    and "download_binary_file w u = Inr fig_bytes"
    and "png_decode w fig_bytes = Inr fig" "png_decode w raw_bytes = Inr emu"
    and "0 < width fig" "0 < height fig"
    and "scaled_height (height emu) (width fig) (width emu) = Inr sh" "height fig \<le> sh"
  shows "\<exists>ev rep. compare_screen_with_figma w rq = (ev, Inr rep)"
proof -
  let ?paths = "artifact_paths (output_dir rq) (run_id_of (now w))"
  from compare_images_returns [OF assms(4,5,12,13,14,15), of w ?paths] obtain ev rep where
    "compare_images w rq ?paths fig emu = (ev, Inr rep)" by blast
  with cmp_run [OF assms(1-11)] show ?thesis by (simp add: Let_def)
qed

lemma compare_screen_inv:
  assumes "compare_screen_with_figma w rq = (ev, Inr rep)"
  shows "0 < grid_cols rq \<and> 0 < grid_rows rq \<and>
         (\<exists>token raw_bytes u fig_bytes fig emu ev'.
            resolve_figma_token (figma_token rq) (env_figma_token w) = Inr token \<and>
            screencap w = Inr raw_bytes \<and>
            figma_node_image_url w (file_key rq) (node_id rq) token (scale rq)
              (use_absolute_bounds rq) = Inr u \<and>
            download_binary_file w u = Inr fig_bytes \<and>
            png_decode w fig_bytes = Inr fig \<and> png_decode w raw_bytes = Inr emu \<and>
            compare_images w rq (artifact_paths (output_dir rq) (run_id_of (now w))) fig emu =
              (ev', Inr rep))"
proof -
  have valid: "\<not> (py_strip (file_key rq) = [] \<or> py_strip (node_id rq) = [] \<or> scale rq \<le> 0 \<or>
      grid_cols rq \<le> 0 \<or> grid_rows rq \<le> 0)"
  proof
    assume "py_strip (file_key rq) = [] \<or> py_strip (node_id rq) = [] \<or> scale rq \<le> 0 \<or>
      grid_cols rq \<le> 0 \<or> grid_rows rq \<le> 0"
    from cmp_invalid [OF this, of w] assms show False by auto
  qed
  obtain token where tok: "resolve_figma_token (figma_token rq) (env_figma_token w) = Inr token"
  proof (cases "resolve_figma_token (figma_token rq) (env_figma_token w)")
    case (Inl e)
    with valid assms cmp_token [of rq w e] show ?thesis by auto
  next
    case (Inr t)
    then show ?thesis by (rule that)
  qed
  let ?paths = "artifact_paths (output_dir rq) (run_id_of (now w))"
  from valid tok assms have "\<exists>raw_bytes u fig_bytes fig emu ev'.
            screencap w = Inr raw_bytes \<and>
            figma_node_image_url w (file_key rq) (node_id rq) token (scale rq)
              (use_absolute_bounds rq) = Inr u \<and>
            download_binary_file w u = Inr fig_bytes \<and>
            png_decode w fig_bytes = Inr fig \<and> png_decode w raw_bytes = Inr emu \<and>
            compare_images w rq ?paths fig emu = (ev', Inr rep)"
    by (auto simp: compare_screen_with_figma_def Let_def split: sum.splits prod.splits)
  with valid tok show ?thesis by auto
qed

lemma compare_images_inv:
  assumes "compare_images w rq paths fig emu = (ev, Inr rep)"
  shows "\<exists>sh best a.
           scaled_height (height emu) (width fig) (width emu) = Inr sh \<and> height fig \<le> sh \<and>
           offset_search fig (resize w emu (width fig) sh) (sh - height fig) = Inr best \<and>
           diff_pass fig
             (crop (resize w emu (width fig) sh) 0 (fst best) (width fig)
                (fst best + height fig))
             (nat (grid_cols rq)) (nat (grid_rows rq)) = Inr a \<and>
           build_report rq paths (width fig) (height fig) sh best a = Inr rep"
  using assms
  by (auto simp: compare_images_def Let_def split: sum.splits if_splits)

text \<open>
  Claim C7. In every report \<open>compare_screen_with_figma\<close> returns, \<open>worstGridCells\<close> is in
  descending order of \<open>avgDiff\<close> and has \<open>min(12, grid_cols * grid_rows)\<close> elements. It is
  line 886 applied to the list of grid cells that lines 861-873 build from the accumulator
  of the diff pass of this very run (the pass over the decoded reference and the capture
  rescaled and cropped at the best offset): each of its elements is one of these
  \<open>grid_cols * grid_rows\<close> cells, whose row and column lie inside the grid.
\<close>

theorem worst_cells_sorted_top12:
  assumes "compare_screen_with_figma w rq = (ev, Inr rep)"
  shows "sorted_wrt (\<lambda>c d. avgDiff d \<le> avgDiff c) (worstGridCells rep) \<and>
         length (worstGridCells rep) = min 12 (nat (grid_cols rq) * nat (grid_rows rq)) \<and>
         (\<exists>token raw_bytes u fig_bytes fig emu sh best a cells.
            resolve_figma_token (figma_token rq) (env_figma_token w) = Inr token \<and>
            screencap w = Inr raw_bytes \<and>
            figma_node_image_url w (file_key rq) (node_id rq) token (scale rq)
              (use_absolute_bounds rq) = Inr u \<and>
            download_binary_file w u = Inr fig_bytes \<and>
            png_decode w fig_bytes = Inr fig \<and> png_decode w raw_bytes = Inr emu \<and>
            scaled_height (height emu) (width fig) (width emu) = Inr sh \<and>
            offset_search fig (resize w emu (width fig) sh) (sh - height fig) = Inr best \<and>
            diff_pass fig
              (crop (resize w emu (width fig) sh) 0 (fst best) (width fig)
                 (fst best + height fig))
              (nat (grid_cols rq)) (nat (grid_rows rq)) = Inr a \<and>
            build_grid_cells a (nat (grid_cols rq)) (nat (grid_rows rq)) = Inr cells \<and>
            length cells = nat (grid_cols rq) * nat (grid_rows rq) \<and>
            (\<forall>c\<in>set cells. row c < nat (grid_rows rq) \<and> col c < nat (grid_cols rq)) \<and>
            worstGridCells rep = worst_grid_cells cells \<and>
            set (worstGridCells rep) \<subseteq> set cells)"
proof -
  let ?gc = "nat (grid_cols rq)" and ?gr = "nat (grid_rows rq)"
  let ?paths = "artifact_paths (output_dir rq) (run_id_of (now w))"
  from compare_screen_inv [OF assms] obtain token raw_bytes u fig_bytes fig emu ev' where
    g: "0 < grid_cols rq" "0 < grid_rows rq"
    and io: "resolve_figma_token (figma_token rq) (env_figma_token w) = Inr token"
      "screencap w = Inr raw_bytes"
      "figma_node_image_url w (file_key rq) (node_id rq) token (scale rq)
         (use_absolute_bounds rq) = Inr u"
      "download_binary_file w u = Inr fig_bytes"
      "png_decode w fig_bytes = Inr fig" "png_decode w raw_bytes = Inr emu"
    and c: "compare_images w rq ?paths fig emu = (ev', Inr rep)" by blast
  let ?al = "\<lambda>sh best. crop (resize w emu (width fig) sh) 0 (fst best) (width fig)
                (fst best + height fig)"
  from compare_images_inv [OF c] obtain sh best a where
    st: "scaled_height (height emu) (width fig) (width emu) = Inr sh"
      "offset_search fig (resize w emu (width fig) sh) (sh - height fig) = Inr best"
    and d: "diff_pass fig (?al sh best) ?gc ?gr = Inr a"
    and b: "build_report rq ?paths (width fig) (height fig) sh best a = Inr rep" by blast
  have size: "width (?al sh best) = width fig" "height (?al sh best) = height fig"
    using aligned_size by simp_all
  from g have g': "0 < ?gc" "0 < ?gr" by simp_all
  from diff_pass_pure [OF g' size] d have sh: "acc_shape (width fig) (height fig) ?gc ?gr a"
    by simp
  from build_report_cells [OF b] obtain cells where
    cells: "build_grid_cells a ?gc ?gr = Inr cells" "worstGridCells rep = worst_grid_cells cells"
    by blast
  from sh have "length (cell_sums a) = ?gc * ?gr" "length (cell_pixels a) = ?gc * ?gr"
    by (simp_all add: acc_shape_def)
  from build_grid_cells_pure [OF this] cells(1)
  have eq: "cells = concat (map (\<lambda>r. map (grid_cell_of a ?gc r) [0..<?gc]) [0..<?gr])" by simp
  have len: "length cells = ?gc * ?gr" unfolding eq by (rule length_grid_cells)
  have rc: "\<forall>c\<in>set cells. row c < ?gr \<and> col c < ?gc"
    unfolding eq using grid_cells_rows_cols by blast
  note props = worst_grid_cells_props [of cells]
  from props cells(2) len
  have p1: "sorted_wrt (\<lambda>c d. avgDiff d \<le> avgDiff c) (worstGridCells rep)"
    and p2: "length (worstGridCells rep) = min 12 (?gc * ?gr)"
    and p3: "set (worstGridCells rep) \<subseteq> set cells" by simp_all
  from io st d cells len rc p3 have
    "\<exists>token raw_bytes u fig_bytes fig emu sh best a cells.
            resolve_figma_token (figma_token rq) (env_figma_token w) = Inr token \<and>
            screencap w = Inr raw_bytes \<and>
            figma_node_image_url w (file_key rq) (node_id rq) token (scale rq)
              (use_absolute_bounds rq) = Inr u \<and>
            download_binary_file w u = Inr fig_bytes \<and>
            png_decode w fig_bytes = Inr fig \<and> png_decode w raw_bytes = Inr emu \<and>
            scaled_height (height emu) (width fig) (width emu) = Inr sh \<and>
            offset_search fig (resize w emu (width fig) sh) (sh - height fig) = Inr best \<and>
            diff_pass fig
              (crop (resize w emu (width fig) sh) 0 (fst best) (width fig)
                 (fst best + height fig)) ?gc ?gr = Inr a \<and>
            build_grid_cells a ?gc ?gr = Inr cells \<and>
            length cells = ?gc * ?gr \<and>
            (\<forall>c\<in>set cells. row c < ?gr \<and> col c < ?gc) \<and>
            worstGridCells rep = worst_grid_cells cells \<and>
            set (worstGridCells rep) \<subseteq> set cells"
    by blast
  with p1 p2 show ?thesis by blast
qed

lemma px_cell_sums:
  "cell_sums (px_update fig emu tw th gc gr (x, y) a) =
     (cell_sums a)[cell_index tw th gc gr x y :=
        cell_sums a ! cell_index tw th gc gr x y +
        d_avg_of (pixels fig x y) (pixels emu x y)]"
  by (simp add: px_update_def Let_def d_avg_of_def abs_delta_def split: prod.splits)

lemma all_pixels_2_1: "all_pixels 2 1 = [(0, 0), (1, 0)]"
  by code_simp

lemma two_pixel_cells:
  fixes al fig :: pil_image
  assumes "pixels fig 0 0 = (10, 10, 10)" "pixels fig 1 0 = (10, 10, 10)"
    "pixels al 0 0 = (13, 10, 10)" "pixels al 1 0 = (40, 10, 10)"
  defines "a \<equiv> fold (px_update fig al 2 1 2 1) [(0, 0), (1, 0)] (initial_acc 2 1 2 1)"
  shows "cell_sums a = [1, 10]" "cell_pixels a = [1, 1]"
proof -
  show "cell_sums a = [1, 10]"
    using assms(1-4)
    by (simp add: a_def px_cell_sums cell_index_def initial_acc_def d_avg_of_def abs_delta_def
          numeral_2_eq_2)
  show "cell_pixels a = [1, 1]"
    by (simp add: a_def px_cell_pixels cell_index_def initial_acc_def numeral_2_eq_2)
qed

lemma sorted_two_cells:
  assumes "avgDiff c0 = 1" "avgDiff c1 = 10"
  shows "worst_grid_cells [c0, c1] = [c1, c0]"
  using assms by (simp add: worst_grid_cells_def py_sorted_reverse_def)

lemma grid_cell_of_avg:
  assumes "cell_pixels a ! (r * gc + c) = 1" "cell_sums a ! (r * gc + c) = real_of_int k"
  shows "avgDiff (grid_cell_of a gc r c) = real_of_int k" "col (grid_cell_of a gc r c) = c"
    "row (grid_cell_of a gc r c) = r"
  using assms by (simp_all add: grid_cell_of_def Let_def)

theorem worst_cells_sorted_top12_witness:
  "\<exists>ev rep. compare_screen_with_figma
      \<lparr>env_figma_token = None,
       now = \<lparr>year = 2026, month = 11, day = 3, hour = 9, minute = 30, second = 5,
               microsecond = 0\<rparr>,
       screencap = Inr ''emu'',
       figma_node_image_url = (\<lambda>k n t s b. Inr ''https://example.com/mock.png''),
       download_binary_file = (\<lambda>u. Inr ''fig''),
       png_decode = (\<lambda>b. if b = ''fig''
          then Inr \<lparr>width = 2, height = 1, pixels = (\<lambda>x y. (10, 10, 10))\<rparr>
          else Inr \<lparr>width = 2, height = 1,
                    pixels = (\<lambda>x y. if x = 0 then (13, 10, 10) else (40, 10, 10))\<rparr>),
       lanczos = (\<lambda>img w h. pixels img)\<rparr>
      \<lparr>file_key = ''file_key'', node_id = ''21:1074'', figma_token = Some ''figd_test'',
       scale = 1, use_absolute_bounds = True, grid_cols = 2, grid_rows = 1,
       output_dir = ''out''\<rparr> = (ev, Inr rep) \<and>
     sorted_wrt (\<lambda>c d. avgDiff d \<le> avgDiff c) (worstGridCells rep) \<and>
     map avgDiff (worstGridCells rep) = [10, 1] \<and>
     map col (worstGridCells rep) = [1, 0]"
proof -
  let ?fig = "\<lparr>width = 2, height = 1, pixels = (\<lambda>x y. (10, 10, 10))\<rparr> :: pil_image"
  let ?emu = "\<lparr>width = 2, height = 1,
                pixels = (\<lambda>x y. if x = 0 then (13, 10, 10) else (40, 10, 10))\<rparr> :: pil_image"
  let ?w = "\<lparr>env_figma_token = None,
       now = \<lparr>year = 2026, month = 11, day = 3, hour = 9, minute = 30, second = 5,
               microsecond = 0\<rparr>,
       screencap = Inr ''emu'',
       figma_node_image_url = (\<lambda>k n t s b. Inr ''https://example.com/mock.png''),
       download_binary_file = (\<lambda>u. Inr ''fig''),
       png_decode = (\<lambda>b. if b = ''fig'' then Inr ?fig else Inr ?emu),
       lanczos = (\<lambda>img w h. pixels img)\<rparr>"
  let ?rq = "\<lparr>file_key = ''file_key'', node_id = ''21:1074'',
       figma_token = Some ''figd_test'',
       scale = 1, use_absolute_bounds = True, grid_cols = 2, grid_rows = 1,
       output_dir = ''out''\<rparr>"
  have s: "py_strip ''file_key'' = ''file_key''" "py_strip ''21:1074'' = ''21:1074''"
    "py_strip ''figd_test'' = ''figd_test''"
    by (simp_all add: py_strip_def py_isspace_def)
  have tok: "resolve_figma_token (figma_token ?rq) (env_figma_token ?w) = Inr ''figd_test''"
    by (simp add: resolve_figma_token_def py_or_def s)
  have sh1: "scaled_height (height ?emu) (width ?fig) (width ?emu) = Inr 1"
    by (simp add: scaled_height_def py_round_def)
  have "\<exists>ev rep. compare_screen_with_figma ?w ?rq = (ev, Inr rep)"
    by (rule compare_screen_returns [where token = "''figd_test''" and raw_bytes = "''emu''"
          and u = "''https://example.com/mock.png''" and fig_bytes = "''fig''"
          and fig = ?fig and emu = ?emu and sh = 1])
       (simp_all add: s tok [simplified] sh1 [simplified])
  then obtain ev rep where r: "compare_screen_with_figma ?w ?rq = (ev, Inr rep)" by blast
  from worst_cells_sorted_top12 [OF r] obtain fig_bytes raw_bytes fig emu sh best a cells where
    srt: "sorted_wrt (\<lambda>c d. avgDiff d \<le> avgDiff c) (worstGridCells rep)"
    and cap: "screencap ?w = Inr raw_bytes"
    and dl: "download_binary_file ?w ''https://example.com/mock.png'' = Inr fig_bytes"
    and dec: "png_decode ?w fig_bytes = Inr fig" "png_decode ?w raw_bytes = Inr emu"
    and sh: "scaled_height (height emu) (width fig) (width emu) = Inr sh"
    and os: "offset_search fig (resize ?w emu (width fig) sh) (sh - height fig) = Inr best"
    and dp: "diff_pass fig
              (crop (resize ?w emu (width fig) sh) 0 (fst best) (width fig)
                 (fst best + height fig))
              (nat (grid_cols ?rq)) (nat (grid_rows ?rq)) = Inr a"
    and bg: "build_grid_cells a (nat (grid_cols ?rq)) (nat (grid_rows ?rq)) = Inr cells"
    and wc: "worstGridCells rep = worst_grid_cells cells"
    by auto
  from cap dl have b: "raw_bytes = ''emu''" "fig_bytes = ''fig''" by simp_all
  with dec have im: "fig = ?fig" "emu = ?emu" by simp_all
  with sh sh1 have shv: "sh = 1" by simp
  let ?sc = "resize ?w ?emu 2 1"
  from os im shv have os': "offset_search ?fig ?sc 0 = Inr best" by simp
  have "\<exists>best_y s. offset_search ?fig ?sc (height ?sc - height ?fig) = Inr (best_y, Finite s) \<and>
           best_y \<le> height ?sc - height ?fig"
    by (rule offset_search_returns) (simp_all add: resize_def)
  with os' have fb: "fst best = 0" by (auto simp: resize_def)
  let ?al = "crop ?sc 0 0 2 1"
  have e: "nat (grid_cols ?rq) = 2" "nat (grid_rows ?rq) = 1" "width ?fig = 2"
    "height ?fig = 1" by simp_all
  from dp have dp': "diff_pass ?fig ?al 2 1 = Inr a"
    unfolding im shv fb by (simp only: e add_0)
  have size: "width ?al = width ?fig" "height ?al = height ?fig" by (simp_all add: crop_def)
  have g: "(0::nat) < 2" "(0::nat) < 1" by simp_all
  note p = diff_pass_pure [OF g size, unfolded e all_pixels_2_1]
  from p have p1: "diff_pass ?fig ?al 2 1 =
      Inr (fold (px_update ?fig ?al 2 1 2 1) [(0, 0), (1, 0)] (initial_acc 2 1 2 1))"
    by (rule conjunct1)
  from p have p2: "acc_shape 2 1 2 1
      (fold (px_update ?fig ?al 2 1 2 1) [(0, 0), (1, 0)] (initial_acc 2 1 2 1))"
    by (rule conjunct2)
  from p1 dp' have a: "a = fold (px_update ?fig ?al 2 1 2 1) [(0, 0), (1, 0)]
      (initial_acc 2 1 2 1)" by (simp only: sum.inject)
  from p2 have shape: "acc_shape 2 1 2 1 a" by (simp only: a)
  have cs: "cell_sums a = [1, 10]" and cp: "cell_pixels a = [1, 1]"
    unfolding a by (rule two_pixel_cells; simp add: crop_def resize_def)+
  from shape have len: "length (cell_sums a) = 2 * 1" "length (cell_pixels a) = 2 * 1"
    by (simp_all add: acc_shape_def)
  from build_grid_cells_pure [OF len] bg
  have "cells = concat (map (\<lambda>r. map (grid_cell_of a 2 r) [0..<2]) [0..<1])" by simp
  also have "\<dots> = [grid_cell_of a 2 0 0, grid_cell_of a 2 0 1]"
    by (simp add: upt_conv_Cons)
  finally have cells: "cells = [grid_cell_of a 2 0 0, grid_cell_of a 2 0 1]" .
  have c0: "avgDiff (grid_cell_of a 2 0 0) = 1" "col (grid_cell_of a 2 0 0) = 0"
    using grid_cell_of_avg [of a 0 2 0 1] cs cp by simp_all
  have c1: "avgDiff (grid_cell_of a 2 0 1) = 10" "col (grid_cell_of a 2 0 1) = 1"
    using grid_cell_of_avg [of a 0 2 1 10] cs cp by simp_all
  from wc cells sorted_two_cells [OF c0(1) c1(1)]
  have "worstGridCells rep = [grid_cell_of a 2 0 1, grid_cell_of a 2 0 0]" by simp
  with c0 c1 have m: "map avgDiff (worstGridCells rep) = [10, 1]"
    "map col (worstGridCells rep) = [1, 0]" by simp_all
  show ?thesis by (intro exI conjI) (rule r, rule srt, rule m(1), rule m(2))
qed

section \<open>Identical images\<close>



lemma px_update_equal:
  assumes "pixels emu x y = pixels fig x y"
  shows "sum_abs (px_update fig emu tw th gc gr (x, y) a) = sum_abs a"
    and "sum_sq (px_update fig emu tw th gc gr (x, y) a) = sum_sq a"
    and "diff_gt_10 (px_update fig emu tw th gc gr (x, y) a) = diff_gt_10 a"
    and "diff_gt_25 (px_update fig emu tw th gc gr (x, y) a) = diff_gt_25 a"
    and "diff_gt_50 (px_update fig emu tw th gc gr (x, y) a) = diff_gt_50 a"
    and "cell_sums (px_update fig emu tw th gc gr (x, y) a) = cell_sums a"
    and "zones (px_update fig emu tw th gc gr (x, y) a) =
           zone_add (real y / real th) 0 (zones a)"
  using assms by (simp_all add: px_update_def Let_def split: prod.splits)

lemma zone_add_zero_sums:
  "\<forall>z\<in>set zs. zone_sum z = 0 \<Longrightarrow> \<forall>z\<in>set (zone_add yn 0 zs). zone_sum z = 0"
  by (induction zs) simp_all

lemma identical_invariant:
  assumes "\<And>x y. (x, y) \<in> set ps \<Longrightarrow> pixels emu x y = pixels fig x y"
  shows "all_zero (fold (px_update fig emu tw th gc gr) ps (initial_acc tw th gc gr))"
proof (rule fold_prefix_invariant [where P = "\<lambda>pre a. all_zero a"])
  show "all_zero (initial_acc tw th gc gr)"
    by (simp add: all_zero_def initial_acc_def initial_zones_def)
next
  fix p :: "nat \<times> nat" and a :: diff_acc
  assume mem: "p \<in> set ps" and inv: "all_zero a"
  obtain x y where p: "p = (x, y)" by (cases p)
  with mem assms have eq: "pixels emu x y = pixels fig x y" by blast
  from inv have "\<forall>z\<in>set (zone_add (real y / real th) 0 (zones a)). zone_sum z = 0"
    by (intro zone_add_zero_sums) (simp add: all_zero_def)
  with inv show "all_zero (px_update fig emu tw th gc gr p a)"
    unfolding p all_zero_def by (simp add: px_update_equal [OF eq])
qed

lemma similarity_of_0 [simp]: "similarity_of 0 = 100"
  by (simp add: similarity_of_def)

lemma py_round_to_100 [simp]: "py_round_to n 100 = 100"
  using py_round_to_of_int [of n 100] by simp

lemma grid_cell_of_zero:
  assumes "\<forall>s\<in>set (cell_sums a). s = 0" "r * gc + c < length (cell_sums a)"
  shows "avgDiff (grid_cell_of a gc r c) = 0 \<and> similarityPct (grid_cell_of a gc r c) = 100"
proof -
  from assms have "cell_sums a ! (r * gc + c) = 0" by simp
  then show ?thesis by (simp add: grid_cell_of_def Let_def)
qed

lemma zone_entry_of_zero:
  "zone_sum z = 0 \<Longrightarrow> entry_avgDiff (zone_entry_of z) = 0 \<and>
     entry_similarityPct (zone_entry_of z) = 100"
  by (simp add: zone_entry_of_def Let_def)



text \<open>
Claim C5. For a reference and an aligned image of the same positive size with the same
  RGB value at every pixel, and a positive grid, the pass and the values after it are:
  \<open>mae = 0\<close>, \<open>rmse = 0\<close>, \<open>similarity_pct = 100\<close>, the three threshold percentages 0, and an
  average difference of 0 (similarity 100) for every grid cell and every zone.
\<close>

theorem identical_images_zero_diff:
  assumes "0 < gc" and "0 < gr" and "0 < width fig" and "0 < height fig"
    and "width emu = width fig" and "height emu = height fig"
    and "\<forall>y<height fig. \<forall>x<width fig. pixels emu x y = pixels fig x y"
  shows "\<exists>a m cells.
     diff_pass fig emu gc gr = Inr a \<and>
     global_metrics a (width fig) (height fig) = Inr m \<and>
     mae m = 0 \<and> rmse m = 0 \<and> similarity_pct m = 100 \<and>
     px_diff_pct (diff_gt_10 a) (width fig * height fig) = Inr 0 \<and>
     px_diff_pct (diff_gt_25 a) (width fig * height fig) = Inr 0 \<and>
     px_diff_pct (diff_gt_50 a) (width fig * height fig) = Inr 0 \<and>
     build_grid_cells a gc gr = Inr cells \<and> length cells = gc * gr \<and>
     (\<forall>c\<in>set cells. avgDiff c = 0 \<and> similarityPct c = 100) \<and>
     length (zone_report a) = 5 \<and>
     (\<forall>z\<in>set (zone_report a). entry_avgDiff z = 0 \<and> entry_similarityPct z = 100)"
proof -
  let ?tw = "width fig" and ?th = "height fig"
  let ?ps = "all_pixels ?tw ?th"
  define a where "a = fold (px_update fig emu ?tw ?th gc gr) ?ps (initial_acc ?tw ?th gc gr)"
  define m where "m = \<lparr>mae = 0, rmse = 0, similarity_pct = 100\<rparr>"
  define cells where
    "cells = concat (map (\<lambda>r. map (grid_cell_of a gc r) [0..<gc]) [0..<gr])"
  have run: "diff_pass fig emu gc gr = Inr a" and shape: "acc_shape ?tw ?th gc gr a"
    using diff_pass_pure [OF assms(1,2,5,6)] by (simp_all add: a_def)
  have zero: "all_zero a"
    unfolding a_def
    by (rule identical_invariant) (use assms(7) all_pixels_bounds in blast)
  from shape have len: "length (cell_sums a) = gc * gr" "length (cell_pixels a) = gc * gr"
    by (simp_all add: acc_shape_def)
  have gm: "global_metrics a ?tw ?th = Inr m"
    using zero assms(3,4) by (simp add: global_metrics_def all_zero_def m_def)
  have m: "mae m = 0" "rmse m = 0" "similarity_pct m = 100" by (simp_all add: m_def)
  have pct: "px_diff_pct (diff_gt_10 a) (?tw * ?th) = Inr 0"
    "px_diff_pct (diff_gt_25 a) (?tw * ?th) = Inr 0"
    "px_diff_pct (diff_gt_50 a) (?tw * ?th) = Inr 0"
    using zero assms(3,4) by (simp_all add: px_diff_pct_def all_zero_def)
  have gcells: "build_grid_cells a gc gr = Inr cells"
    unfolding cells_def by (rule build_grid_cells_pure [OF len])
  have clen: "length cells = gc * gr" unfolding cells_def by (rule length_grid_cells)
  have cz: "avgDiff c = 0 \<and> similarityPct c = 100" if "c \<in> set cells" for c
  proof -
    from that obtain r k where rk: "r < gr" "k < gc" "c = grid_cell_of a gc r k"
      by (auto simp: cells_def)
    from grid_index_less [OF rk(1,2)] len have "r * gc + k < length (cell_sums a)" by simp
    with zero rk(3) show ?thesis by (simp add: grid_cell_of_zero all_zero_def)
  qed
  have zlen: "length (zone_report a) = 5"
    using zones_invariant [of ?ps ?th fig emu ?tw gc gr] all_pixels_bounds [of _ _ ?tw ?th]
      length_map [of zone_name "zones a"]
    by (simp add: a_def zone_report_def)
  have zz: "entry_avgDiff z = 0 \<and> entry_similarityPct z = 100" if "z \<in> set (zone_report a)" for z
    using that zero by (auto simp: zone_report_def all_zero_def zone_entry_of_zero)
  from run gm m pct gcells clen cz zlen zz show ?thesis by blast
qed

theorem identical_images_zero_diff_witness:
  "\<exists>a m. diff_pass \<lparr>width = 50, height = 100, pixels = (\<lambda>x y. (40, 75, 140))\<rparr>
            \<lparr>width = 50, height = 100, pixels = (\<lambda>x y. (40, 75, 140))\<rparr> 6 10 = Inr a \<and>
         global_metrics a 50 100 = Inr m \<and> mae m = 0 \<and> similarity_pct m = 100"
  using identical_images_zero_diff [of 6 10
      "\<lparr>width = 50, height = 100, pixels = (\<lambda>x y. (40, 75, 140))\<rparr>"
      "\<lparr>width = 50, height = 100, pixels = (\<lambda>x y. (40, 75, 140))\<rparr>"]
  by auto



section \<open>A uniform channel difference\<close>


lemma px_sum_abs:
  "sum_abs (px_update fig emu tw th gc gr (x, y) a) =
     sum_abs a + real_of_int (abs_delta (pixels fig x y) (pixels emu x y))"
  by (simp add: px_update_def Let_def abs_delta_def split: prod.splits)

lemma uniform_abs_delta: "uniform_delta k p q \<Longrightarrow> abs_delta p q = 3 * k"
  by (auto simp: uniform_delta_def abs_delta_def split: prod.splits)

lemma uniform_delta_range:
  assumes "uniform_delta k p q" "valid_rgb p" "valid_rgb q"
  shows "0 \<le> k \<and> k \<le> 255"
  using assms by (auto simp: uniform_delta_def valid_rgb_def split: prod.splits)

lemma uniform_invariant:
  assumes "\<And>x y. (x, y) \<in> set ps \<Longrightarrow> uniform_delta k (pixels fig x y) (pixels emu x y)"
  shows "sum_abs (fold (px_update fig emu tw th gc gr) ps (initial_acc tw th gc gr)) =
           real_of_int (3 * k) * real (length ps)"
proof (rule fold_prefix_invariant
    [where P = "\<lambda>pre a. sum_abs a = real_of_int (3 * k) * real (length pre)"])
  show "sum_abs (initial_acc tw th gc gr) = real_of_int (3 * k) * real (length [])"
    by (simp add: initial_acc_def)
next
  fix pre :: "(nat \<times> nat) list" and p :: "nat \<times> nat" and a :: diff_acc
  assume mem: "p \<in> set ps" and inv: "sum_abs a = real_of_int (3 * k) * real (length pre)"
  obtain x y where p: "p = (x, y)" by (cases p)
  with mem assms have "uniform_delta k (pixels fig x y) (pixels emu x y)" by blast
  then have "abs_delta (pixels fig x y) (pixels emu x y) = 3 * k" by (rule uniform_abs_delta)
  with inv show "sum_abs (px_update fig emu tw th gc gr p a) =
      real_of_int (3 * k) * real (length (pre @ [p]))"
    by (simp add: p px_sum_abs algebra_simps)
qed

text \<open>
Claim C6. For byte-valued images of the same positive size whose channels differ by
  the same absolute value \<open>k\<close> at every pixel, and a positive grid, the pass returns and
  line 857 gives \<open>mae = k\<close> exactly, line 859 gives
  \<open>similarity_pct = 100 - (k / 255) * 100\<close>; the report's \<open>round(mae, 4)\<close> is \<open>k\<close> and its
  \<open>round(similarity_pct, 4)\<close> is within \<open>0.00005\<close> of that value. For \<open>k = 5\<close> both the value
  and the reported one exceed 90.
\<close>

theorem uniform_delta_metrics:
  assumes "0 < gc" and "0 < gr" and "0 < width fig" and "0 < height fig"
    and "width emu = width fig" and "height emu = height fig"
    and "wf_image fig" and "wf_image emu"
    and "\<forall>y<height fig. \<forall>x<width fig. uniform_delta k (pixels fig x y) (pixels emu x y)"
  shows "\<exists>a m.
     diff_pass fig emu gc gr = Inr a \<and>
     global_metrics a (width fig) (height fig) = Inr m \<and>
     mae m = real_of_int k \<and>
     similarity_pct m = 100 - (real_of_int k / 255) * 100 \<and>
     py_round_to 4 (mae m) = real_of_int k \<and>
     \<bar>py_round_to 4 (similarity_pct m) - (100 - (real_of_int k / 255) * 100)\<bar> \<le> 1 / 20000 \<and>
     (k = 5 \<longrightarrow> 90 < similarity_pct m \<and> 90 < py_round_to 4 (similarity_pct m))"
proof -
  let ?tw = "width fig" and ?th = "height fig"
  let ?ps = "all_pixels ?tw ?th"
  define a where "a = fold (px_update fig emu ?tw ?th gc gr) ?ps (initial_acc ?tw ?th gc gr)"
  have run: "diff_pass fig emu gc gr = Inr a"
    using diff_pass_pure [OF assms(1,2,5,6)] by (simp add: a_def)
  have "sum_abs a = real_of_int (3 * k) * real (length ?ps)"
    unfolding a_def
    by (rule uniform_invariant) (use assms(9) all_pixels_bounds in blast)
  then have sa: "sum_abs a = real_of_int k * real (?tw * ?th * 3)"
    by (simp add: length_all_pixels)
  from assms(3,4) have ch: "?tw * ?th * 3 \<noteq> 0" by simp
  then have chr: "real (?tw * ?th * 3) \<noteq> 0" by (simp only: of_nat_eq_0_iff not_False_eq_True)
  have q: "sum_abs a / real (?tw * ?th * 3) = real_of_int k"
    unfolding sa using chr by (rule nonzero_mult_div_cancel_right)
  have range: "0 \<le> k \<and> k \<le> 255"
  proof -
    from assms(9,3,4) have u: "uniform_delta k (pixels fig 0 0) (pixels emu 0 0)" by simp
    from assms(7,8,3,4,5,6) have "valid_rgb (pixels fig 0 0)" "valid_rgb (pixels emu 0 0)"
      by (simp_all add: wf_image_def)
    from uniform_delta_range [OF u this] show ?thesis .
  qed
  define m where "m = \<lparr>mae = real_of_int k, rmse = sqrt (sum_sq a / real (?tw * ?th * 3)),
      similarity_pct = similarity_of (real_of_int k)\<rparr>"
  have gm: "global_metrics a ?tw ?th = Inr m"
    using ch q by (simp add: global_metrics_def Let_def m_def)
  have sim: "similarity_of (real_of_int k) = 100 - (real_of_int k / 255) * 100"
    using range by (simp add: similarity_of_def)
  have m1: "mae m = real_of_int k" by (simp add: m_def)
  have m2: "similarity_pct m = 100 - (real_of_int k / 255) * 100" by (simp add: m_def sim)
  have m3: "py_round_to 4 (mae m) = real_of_int k" by (simp add: m1)
  have m4: "\<bar>py_round_to 4 (similarity_pct m) - (100 - (real_of_int k / 255) * 100)\<bar>
      \<le> 1 / 20000"
    using py_round_to_close [of 4 "similarity_pct m"] by (simp add: m2)
  have m5: "90 < similarity_pct m \<and> 90 < py_round_to 4 (similarity_pct m)" if "k = 5"
  proof -
    from that m2 have "similarity_pct m = 100 - (5 / 255) * 100" by simp
    then have gt: "98 < similarity_pct m" by simp
    have "\<bar>py_round_to 4 (similarity_pct m) - similarity_pct m\<bar> \<le> 1 / (2 * 10 ^ 4)"
      by (rule py_round_to_close)
    then have "\<bar>py_round_to 4 (similarity_pct m) - similarity_pct m\<bar> \<le> 1 / 20000"
      by simp
    with gt show ?thesis by linarith
  qed
  from run gm m1 m2 m3 m4 m5 show ?thesis by blast
qed

theorem uniform_delta_metrics_witness:
  "\<exists>a m. diff_pass \<lparr>width = 50, height = 100, pixels = (\<lambda>x y. (40, 75, 140))\<rparr>
            \<lparr>width = 50, height = 100, pixels = (\<lambda>x y. (35, 70, 135))\<rparr> 6 10 = Inr a \<and>
         global_metrics a 50 100 = Inr m \<and> mae m = 5 \<and>
         similarity_pct m = 100 - (5 / 255) * 100 \<and> 90 < similarity_pct m"
proof -
  let ?fig = "\<lparr>width = 50, height = 100, pixels = (\<lambda>x y. (40, 75, 140))\<rparr> :: pil_image"
  let ?emu = "\<lparr>width = 50, height = 100, pixels = (\<lambda>x y. (35, 70, 135))\<rparr> :: pil_image"
  have "\<exists>a m.
     diff_pass ?fig ?emu 6 10 = Inr a \<and>
     global_metrics a (width ?fig) (height ?fig) = Inr m \<and>
     mae m = real_of_int 5 \<and>
     similarity_pct m = 100 - (real_of_int 5 / 255) * 100 \<and>
     py_round_to 4 (mae m) = real_of_int 5 \<and>
     \<bar>py_round_to 4 (similarity_pct m) - (100 - (real_of_int 5 / 255) * 100)\<bar> \<le> 1 / 20000 \<and>
     ((5::int) = 5 \<longrightarrow> 90 < similarity_pct m \<and> 90 < py_round_to 4 (similarity_pct m))"
    by (rule uniform_delta_metrics)
       (simp_all add: wf_image_def valid_rgb_def uniform_delta_def)
  then show ?thesis by auto
qed


end
